theory Spec2Isabelle
  imports Complex_Main "HOL-Library.Word" "HOL-Library.Finite_Map" "HOL-Library.Multiset"
begin

section \<open>Data model (order\_book.h)\<close>

text \<open>
  The embedding follows \<^verbatim>\<open>order_book.h\<close> and \<^verbatim>\<open>order_book.cpp\<close>.

  \<^item> \<^verbatim>\<open>uint64_t\<close> is \<open>64 word\<close>: \<open>+\<close> and \<open>-\<close> wrap modulo \<open>2 ^ 64\<close>.
  \<^item> \<^verbatim>\<open>double price\<close> is \<open>real\<close>. The model covers the finite doubles, on which
    \<^verbatim>\<open>==\<close>, \<^verbatim>\<open><\<close> and \<^verbatim>\<open>></\<close> agree with the reals; NaN (for which the
    comparators of \<^verbatim>\<open>std::map\<close> are no strict weak order) and the infinities are
    outside the model.
  \<^item> \<^verbatim>\<open>OrderNode*\<close> is an address \<open>(block, slot)\<close> into the blocks of the pool; the
    objects living at these addresses are an explicit store, because the order index and
    the price-level queues alias the same node and \<^verbatim>\<open>amend_order\<close> writes through it.
  \<^item> Undefined behaviour of the C++ (dereferencing a pointer to a destroyed node, erasing
    through an iterator that is not in the list) is the result \<open>None\<close>; the properties
    below show that no call on a reachable book has it.
  \<^item> Exceptions of the C++ library are values: \<^verbatim>\<open>get_snapshot\<close> returns the exception
    thrown by the calls on the vectors of the caller, if any, and the allocator these
    vectors use is a parameter. In \<^verbatim>\<open>add_order\<close> and \<^verbatim>\<open>amend_order\<close> the storage for a
    node or a map entry is taken to be available.
  \<^item> The members of the classes end in an underscore in the source (\<^verbatim>\<open>bids_\<close>,
    \<^verbatim>\<open>orders_\<close>, ...); the fields of the records are named without it.
\<close>

type_synonym u64 = "64 word"

record Order =
  order_id :: u64
  is_buy :: bool
  price :: real
  quantity :: u64
  timestamp_ns :: u64

text \<open>\<^verbatim>\<open>struct PriceLevel { double price; uint64_t total_quantity; }\<close>, one snapshot entry.\<close>

datatype PriceLevel = PriceLevel (level_price: real) (level_total_quantity: u64)

subsection \<open>MemoryPool\<close>

type_synonym node_ptr = "nat \<times> nat"

text \<open>
  \<^verbatim>\<open>blocks_\<close> holds the blocks got from \<^verbatim>\<open>::operator new\<close>; a block is named by its
  position in the order of allocation. \<^verbatim>\<open>current_slot_\<close> never exceeds \<^verbatim>\<open>BlockSize\<close>.
\<close>

record MemoryPool =
  blocks :: "nat list"
  current_block :: nat
  current_slot :: nat

definition BlockSize :: nat where
  "BlockSize = 4096"

text \<open>
  \<^verbatim>\<open>struct OrderNode { Order order; std::list<OrderNode*>::iterator list_iter; }\<close>.
  The iterator designates the cell of the queue that holds this node; in the model it is
  the occurrence of the node's address in the queue.
\<close>

record OrderNode =
  order :: Order

type_synonym heap = "node_ptr \<rightharpoonup> OrderNode"

definition allocate_block :: "MemoryPool \<Rightarrow> MemoryPool" where
  "allocate_block p =
     (let new_block = length (blocks p)
      in p\<lparr>blocks := blocks p @ [new_block], current_block := new_block, current_slot := 0\<rparr>)"

text \<open>The constructor \<^verbatim>\<open>MemoryPool()\<close>.\<close>

definition MemoryPool_new :: MemoryPool where
  "MemoryPool_new = allocate_block \<lparr>blocks = [], current_block = 0, current_slot = 0\<rparr>"

text \<open>
  \<^verbatim>\<open>construct\<close>: bump allocation, then placement new of the node at the slot.
\<close>

definition construct :: "Order \<Rightarrow> MemoryPool \<times> heap \<Rightarrow> node_ptr \<times> MemoryPool \<times> heap" where
  "construct ord ph =
     (let p = fst ph; h = snd ph;
          p1 = (if current_slot p \<ge> BlockSize then allocate_block p else p);
          ptr = (current_block p1, current_slot p1);
          p2 = p1\<lparr>current_slot := current_slot p1 + 1\<rparr>
      in (ptr, p2, h(ptr \<mapsto> \<lparr>order = ord\<rparr>)))"

text \<open>\<^verbatim>\<open>destroy\<close>: the destructor ends the life of the node; the pool itself is untouched.\<close>

definition destroy :: "node_ptr \<Rightarrow> MemoryPool \<times> heap \<Rightarrow> MemoryPool \<times> heap" where
  "destroy ptr ph = (fst ph, (snd ph)(ptr := None))"

subsection \<open>PriceLevelQueue\<close>

record PriceLevelQueue =
  orders :: "node_ptr list"
  total_quantity :: u64

definition PriceLevelQueue_new :: PriceLevelQueue where
  "PriceLevelQueue_new = \<lparr>orders = [], total_quantity = 0\<rparr>"

text \<open>\<^verbatim>\<open>PriceLevelQueue::add_order\<close>.\<close>

definition level_add_order :: "heap \<Rightarrow> node_ptr \<Rightarrow> PriceLevelQueue \<Rightarrow> PriceLevelQueue option" where
  "level_add_order h node q =
     (case h node of
        None \<Rightarrow> None
      | Some n \<Rightarrow> Some (q\<lparr>orders := orders q @ [node],
                          total_quantity := total_quantity q + quantity (order n)\<rparr>))"

text \<open>
  \<^verbatim>\<open>PriceLevelQueue::remove_order\<close>. \<^verbatim>\<open>orders_.erase(node->list_iter)\<close> unlinks the cell of
  the node; it is undefined when the node is not in this queue.
\<close>

definition level_remove_order :: "heap \<Rightarrow> node_ptr \<Rightarrow> PriceLevelQueue \<Rightarrow> PriceLevelQueue option" where
  "level_remove_order h node q =
     (case h node of
        None \<Rightarrow> None
      | Some n \<Rightarrow>
          if node \<in> set (orders q)
          then Some (q\<lparr>total_quantity := total_quantity q - quantity (order n),
                       orders := remove1 node (orders q)\<rparr>)
          else None)"

text \<open>\<^verbatim>\<open>PriceLevelQueue::update_quantity\<close>; the node argument is unused (and passed as null).\<close>

definition level_update_quantity :: "u64 \<Rightarrow> u64 \<Rightarrow> PriceLevelQueue \<Rightarrow> PriceLevelQueue" where
  "level_update_quantity old_qty new_qty q =
     q\<lparr>total_quantity := total_quantity q - old_qty + new_qty\<rparr>"

definition level_is_empty :: "PriceLevelQueue \<Rightarrow> bool" where
  "level_is_empty q = (orders q = [])"

subsection \<open>The ordered side maps\<close>

text \<open>
  \<^verbatim>\<open>std::map<double, PriceLevelQueue, Compare>\<close> is the list of its entries in iteration
  order, that is, sorted by the comparator: \<open>(>)\<close> for \<^verbatim>\<open>bids_\<close>, \<open>(<)\<close> for \<^verbatim>\<open>asks_\<close>.
  \<open>side_find\<close> is \<^verbatim>\<open>find\<close>, \<open>side_put\<close> writes a level at a key (inserting the key at its
  place when it is new), \<open>side_erase\<close> is \<^verbatim>\<open>erase\<close>.
\<close>

type_synonym side_map = "(real \<times> PriceLevelQueue) list"

definition side_find :: "real \<Rightarrow> side_map \<Rightarrow> PriceLevelQueue option" where
  "side_find k m = map_of m k"

fun side_put :: "(real \<Rightarrow> real \<Rightarrow> bool) \<Rightarrow> real \<Rightarrow> PriceLevelQueue \<Rightarrow> side_map \<Rightarrow> side_map" where
  "side_put cmp k v [] = [(k, v)]"
| "side_put cmp k v ((k', v') # m) =
     (if cmp k k' then (k, v) # (k', v') # m
      else if cmp k' k then (k', v') # side_put cmp k v m
      else (k', v) # m)"

fun side_erase :: "real \<Rightarrow> side_map \<Rightarrow> side_map" where
  "side_erase k [] = []"
| "side_erase k ((k', v') # m) = (if k' = k then m else (k', v') # side_erase k m)"

text \<open>\<^verbatim>\<open>operator[]\<close>: the level at the key, a fresh empty level when the key is new.\<close>

definition side_get_or_create :: "real \<Rightarrow> side_map \<Rightarrow> PriceLevelQueue" where
  "side_get_or_create k m = (case side_find k m of None \<Rightarrow> PriceLevelQueue_new | Some q \<Rightarrow> q)"

subsection \<open>OrderBook\<close>

record OrderBook =
  bids :: side_map
  asks :: side_map
  order_lookup :: "(u64, node_ptr) fmap"
  order_pool :: MemoryPool
  nodes :: heap

definition OrderBook_new :: OrderBook where
  "OrderBook_new = \<lparr>bids = [], asks = [], order_lookup = fmempty,
                    order_pool = MemoryPool_new, nodes = Map.empty\<rparr>"

definition get_order_count :: "OrderBook \<Rightarrow> nat" where
  "get_order_count b = fcard (fmdom (order_lookup b))"

definition add_to_side :: "node_ptr \<Rightarrow> OrderBook \<Rightarrow> OrderBook option" where
  "add_to_side node b =
     (case nodes b node of
        None \<Rightarrow> None
      | Some n \<Rightarrow>
          if is_buy (order n) then
            (case level_add_order (nodes b) node (side_get_or_create (price (order n)) (bids b)) of
               None \<Rightarrow> None
             | Some level \<Rightarrow> Some (b\<lparr>bids := side_put (>) (price (order n)) level (bids b)\<rparr>))
          else
            (case level_add_order (nodes b) node (side_get_or_create (price (order n)) (asks b)) of
               None \<Rightarrow> None
             | Some level \<Rightarrow> Some (b\<lparr>asks := side_put (<) (price (order n)) level (asks b)\<rparr>)))"

definition remove_from_side :: "node_ptr \<Rightarrow> OrderBook \<Rightarrow> OrderBook option" where
  "remove_from_side node b =
     (case nodes b node of
        None \<Rightarrow> None
      | Some n \<Rightarrow>
          if is_buy (order n) then
            (case side_find (price (order n)) (bids b) of
               None \<Rightarrow> Some b
             | Some q \<Rightarrow>
                 (case level_remove_order (nodes b) node q of
                    None \<Rightarrow> None
                  | Some q' \<Rightarrow>
                      if level_is_empty q'
                      then Some (b\<lparr>bids := side_erase (price (order n)) (bids b)\<rparr>)
                      else Some (b\<lparr>bids := side_put (>) (price (order n)) q' (bids b)\<rparr>)))
          else
            (case side_find (price (order n)) (asks b) of
               None \<Rightarrow> Some b
             | Some q \<Rightarrow>
                 (case level_remove_order (nodes b) node q of
                    None \<Rightarrow> None
                  | Some q' \<Rightarrow>
                      if level_is_empty q'
                      then Some (b\<lparr>asks := side_erase (price (order n)) (asks b)\<rparr>)
                      else Some (b\<lparr>asks := side_put (<) (price (order n)) q' (asks b)\<rparr>))))"

definition add_order :: "Order \<Rightarrow> OrderBook \<Rightarrow> OrderBook option" where
  "add_order ord b =
     (if fmlookup (order_lookup b) (order_id ord) \<noteq> None then Some b
      else
        (case construct ord (order_pool b, nodes b) of
           (node, pool', heap') \<Rightarrow>
             (case add_to_side node (b\<lparr>order_pool := pool', nodes := heap'\<rparr>) of
                None \<Rightarrow> None
              | Some b' \<Rightarrow>
                  Some (b'\<lparr>order_lookup := fmupd (order_id ord) node (order_lookup b')\<rparr>))))"

definition cancel_order :: "u64 \<Rightarrow> OrderBook \<Rightarrow> (bool \<times> OrderBook) option" where
  "cancel_order oid b =
     (case fmlookup (order_lookup b) oid of
        None \<Rightarrow> Some (False, b)
      | Some node \<Rightarrow>
          (case remove_from_side node b of
             None \<Rightarrow> None
           | Some b' \<Rightarrow>
               (case destroy node (order_pool b', nodes b') of
                  (pool', heap') \<Rightarrow>
                    Some (True, b'\<lparr>order_lookup := fmdrop oid (order_lookup b'),
                                   order_pool := pool', nodes := heap'\<rparr>))))"

definition amend_order :: "u64 \<Rightarrow> real \<Rightarrow> u64 \<Rightarrow> OrderBook \<Rightarrow> (bool \<times> OrderBook) option" where
  "amend_order oid new_price new_quantity b =
     (case fmlookup (order_lookup b) oid of
        None \<Rightarrow> Some (False, b)
      | Some node \<Rightarrow>
          (case nodes b node of
             None \<Rightarrow> None
           | Some n \<Rightarrow>
               if price (order n) \<noteq> new_price then
                 (case remove_from_side node b of
                    None \<Rightarrow> None
                  | Some b' \<Rightarrow>
                      (case add_to_side node
                              (b'\<lparr>nodes := (nodes b')(node \<mapsto>
                                    n\<lparr>order := (order n)\<lparr>price := new_price,
                                                          quantity := new_quantity\<rparr>\<rparr>)\<rparr>) of
                         None \<Rightarrow> None
                       | Some b'' \<Rightarrow> Some (True, b'')))
               else if quantity (order n) \<noteq> new_quantity then
                 (if is_buy (order n) then
                    (case side_find (price (order n)) (bids b) of
                       Some q \<Rightarrow>
                         Some (True,
                           b\<lparr>nodes := (nodes b)(node \<mapsto> n\<lparr>order := (order n)\<lparr>quantity := new_quantity\<rparr>\<rparr>),
                             bids := side_put (>) (price (order n))
                                        (level_update_quantity (quantity (order n)) new_quantity q)
                                        (bids b)\<rparr>)
                     | None \<Rightarrow> Some (True, b))
                  else
                    (case side_find (price (order n)) (asks b) of
                       Some q \<Rightarrow>
                         Some (True,
                           b\<lparr>nodes := (nodes b)(node \<mapsto> n\<lparr>order := (order n)\<lparr>quantity := new_quantity\<rparr>\<rparr>),
                             asks := side_put (<) (price (order n))
                                        (level_update_quantity (quantity (order n)) new_quantity q)
                                        (asks b)\<rparr>)
                     | None \<Rightarrow> Some (True, b)))
               else Some (True, b)))"

subsection \<open>get\_snapshot and the vectors of the caller\<close>

text \<open>
  \<^verbatim>\<open>get_snapshot(size_t depth, std::vector<PriceLevel>& bids, std::vector<PriceLevel>& asks)\<close>
  writes through two references to vectors of the caller, which may be one and the same
  vector. A vector is its elements and its capacity; the vectors of the caller are a store
  indexed by references.

  Storage comes from the allocator: \<open>alloc m n\<close> is the state of the free store after
  storage for \<open>n\<close> elements has been obtained in state \<open>m\<close> (the vector giving back the
  storage it had), and \<open>None\<close> when \<^verbatim>\<open>operator new\<close> throws \<^verbatim>\<open>std::bad_alloc\<close>. The allocator
  is not part of the repository; it is a parameter of the model.

  \<^verbatim>\<open>max_size()\<close> is a constant of the C++ library: for \<^verbatim>\<open>std::vector<PriceLevel>\<close> (16
  bytes an element) on a 64-bit target it is \<^verbatim>\<open>PTRDIFF_MAX / 16\<close>, and on every
  implementation at most \<^verbatim>\<open>SIZE_MAX / 16\<close>.
\<close>

datatype vector_error = length_error | bad_alloc

definition vector_max_size :: nat where
  "vector_max_size = (2 ^ 63 - 1) div 16"

record PriceLevel_vector =
  elems :: "PriceLevel list"
  capacity :: nat

type_synonym vector_ref = nat

type_synonym 'm vectors = "'m \<times> (vector_ref \<Rightarrow> PriceLevel_vector)"

text \<open>\<^verbatim>\<open>clear()\<close> removes the elements and keeps the capacity.\<close>

definition vector_clear :: "PriceLevel_vector \<Rightarrow> PriceLevel_vector" where
  "vector_clear v = v\<lparr>elems := []\<rparr>"

text \<open>
  \<^verbatim>\<open>reserve(n)\<close> throws \<^verbatim>\<open>std::length_error\<close> when \<open>n > max_size()\<close>, does nothing when the
  capacity is already \<open>n\<close> or more, and otherwise moves the vector to new storage for \<open>n\<close>
  elements, which throws \<^verbatim>\<open>std::bad_alloc\<close> when the allocator cannot supply it.
\<close>

definition vector_reserve ::
  "('m \<Rightarrow> nat \<Rightarrow> 'm option) \<Rightarrow> nat \<Rightarrow> 'm \<times> PriceLevel_vector
     \<Rightarrow> vector_error + 'm \<times> PriceLevel_vector" where
  "vector_reserve alloc n mv =
     (if n > vector_max_size then Inl length_error
      else if n \<le> capacity (snd mv) then Inr mv
      else (case alloc (fst mv) n of
              None \<Rightarrow> Inl bad_alloc
            | Some m' \<Rightarrow> Inr (m', (snd mv)\<lparr>capacity := n\<rparr>)))"

text \<open>
  When a full vector grows by one element, the library chooses the new capacity:
  libstdc++ takes \<open>size + max size 1\<close>, at most \<^verbatim>\<open>max_size()\<close>.
\<close>

definition vector_grow :: "nat \<Rightarrow> nat" where
  "vector_grow n = min vector_max_size (n + max n 1)"

text \<open>
  \<^verbatim>\<open>emplace_back(price, total)\<close> appends in place while the size is below the capacity;
  a full vector is moved to larger storage first. The vector is unchanged when the call
  throws.
\<close>

definition vector_emplace_back ::
  "('m \<Rightarrow> nat \<Rightarrow> 'm option) \<Rightarrow> PriceLevel \<Rightarrow> 'm \<times> PriceLevel_vector
     \<Rightarrow> vector_error + 'm \<times> PriceLevel_vector" where
  "vector_emplace_back alloc x mv =
     (if length (elems (snd mv)) < capacity (snd mv)
      then Inr (fst mv, (snd mv)\<lparr>elems := elems (snd mv) @ [x]\<rparr>)
      else if length (elems (snd mv)) \<ge> vector_max_size then Inl length_error
      else (case alloc (fst mv) (vector_grow (length (elems (snd mv)))) of
              None \<Rightarrow> Inl bad_alloc
            | Some m' \<Rightarrow>
                Inr (m', (snd mv)\<lparr>elems := elems (snd mv) @ [x],
                                   capacity := vector_grow (length (elems (snd mv)))\<rparr>)))"

text \<open>A call on the vector behind a reference.\<close>

definition at_ref ::
  "vector_ref \<Rightarrow> ('m \<times> PriceLevel_vector \<Rightarrow> vector_error + 'm \<times> PriceLevel_vector)
     \<Rightarrow> 'm vectors \<Rightarrow> vector_error + 'm vectors" where
  "at_ref r f s =
     (case f (fst s, snd s r) of
        Inl e \<Rightarrow> Inl e
      | Inr mv \<Rightarrow> Inr (fst mv, (snd s)(r := snd mv)))"

text \<open>
  Each of the two \<^verbatim>\<open>for\<close> statements of \<^verbatim>\<open>get_snapshot\<close> is a recursion over the entries of
  a side in iteration order, with the counter \<^verbatim>\<open>count\<close> (here \<open>cnt\<close>) and the store as
  accumulators. \<^verbatim>\<open>size_t\<close> is \<open>nat\<close>: the counter is only incremented below \<open>depth\<close>. The
  result is the exception that ended the statement, if any, and the store then.
\<close>

fun snapshot_loop ::
  "('m \<Rightarrow> nat \<Rightarrow> 'm option) \<Rightarrow> nat \<Rightarrow> nat \<Rightarrow> side_map \<Rightarrow> vector_ref \<Rightarrow> 'm vectors
     \<Rightarrow> vector_error option \<times> 'm vectors" where
  "snapshot_loop alloc depth cnt [] r s = (None, s)"
| "snapshot_loop alloc depth cnt ((p, level) # rest) r s =
     (if cnt \<ge> depth then (None, s)
      else (case at_ref r (vector_emplace_back alloc (PriceLevel p (total_quantity level))) s of
              Inl e \<Rightarrow> (Some e, s)
            | Inr s' \<Rightarrow> snapshot_loop alloc depth (cnt + 1) rest r s'))"

text \<open>
  \<^verbatim>\<open>get_snapshot\<close>: \<open>bids_ref\<close> and \<open>asks_ref\<close> are the two references, \<open>s\<close> the allocator
  state and the vectors of the caller at entry; the result is the exception thrown, if
  any, and the allocator state and the vectors when the function is left.
\<close>

definition get_snapshot ::
  "('m \<Rightarrow> nat \<Rightarrow> 'm option) \<Rightarrow> nat \<Rightarrow> vector_ref \<Rightarrow> vector_ref \<Rightarrow> OrderBook \<Rightarrow> 'm vectors
     \<Rightarrow> vector_error option \<times> 'm vectors" where
  "get_snapshot alloc depth bids_ref asks_ref b s =
     (let s1 = (fst s, (snd s)(bids_ref := vector_clear (snd s bids_ref)));
          s2 = (fst s1, (snd s1)(asks_ref := vector_clear (snd s1 asks_ref)))
      in case at_ref bids_ref (vector_reserve alloc depth) s2 of
           Inl e \<Rightarrow> (Some e, s2)
         | Inr s3 \<Rightarrow>
             (case at_ref asks_ref (vector_reserve alloc depth) s3 of
                Inl e \<Rightarrow> (Some e, s3)
              | Inr s4 \<Rightarrow>
                  (case snapshot_loop alloc depth 0 (bids b) bids_ref s4 of
                     (Some e, s5) \<Rightarrow> (Some e, s5)
                   | (None, s5) \<Rightarrow> snapshot_loop alloc depth 0 (asks b) asks_ref s5)))"

text \<open>The states a book can be in: built from the constructor by the three mutating calls.\<close>

inductive reachable :: "OrderBook \<Rightarrow> bool" where
  reachable_new: "reachable OrderBook_new"
| reachable_add: "reachable b \<Longrightarrow> add_order ord b = Some b' \<Longrightarrow> reachable b'"
| reachable_cancel: "reachable b \<Longrightarrow> cancel_order oid b = Some (r, b') \<Longrightarrow> reachable b'"
| reachable_amend: "reachable b \<Longrightarrow> amend_order oid p q b = Some (r, b') \<Longrightarrow> reachable b'"

section \<open>Notions used to state the properties\<close>

text \<open>The two comparators of the side maps, and the side a flag selects.\<close>

definition ord_cmp :: "(real \<Rightarrow> real \<Rightarrow> bool) \<Rightarrow> bool" where
  "ord_cmp cmp \<longleftrightarrow> cmp = (<) \<or> cmp = (>)"

definition cmp_of :: "bool \<Rightarrow> real \<Rightarrow> real \<Rightarrow> bool" where
  "cmp_of buy = (if buy then (>) else (<))"

definition side_of :: "bool \<Rightarrow> OrderBook \<Rightarrow> side_map" where
  "side_of buy b = (if buy then bids b else asks b)"

definition set_side :: "bool \<Rightarrow> side_map \<Rightarrow> OrderBook \<Rightarrow> OrderBook" where
  "set_side buy m b = (if buy then b\<lparr>bids := m\<rparr> else b\<lparr>asks := m\<rparr>)"

text \<open>The FIFO and the cached total at a price of a side; empty and 0 where there is no level.\<close>

definition queue_at :: "OrderBook \<Rightarrow> bool \<Rightarrow> real \<Rightarrow> node_ptr list" where
  "queue_at b buy p = (case side_find p (side_of buy b) of None \<Rightarrow> [] | Some q \<Rightarrow> orders q)"

definition total_at :: "OrderBook \<Rightarrow> bool \<Rightarrow> real \<Rightarrow> u64" where
  "total_at b buy p = (case side_find p (side_of buy b) of None \<Rightarrow> 0 | Some q \<Rightarrow> total_quantity q)"

text \<open>The quantity stored in a node, and the sum over a queue, in \<^verbatim>\<open>uint64_t\<close> arithmetic.\<close>

definition node_quantity :: "heap \<Rightarrow> node_ptr \<Rightarrow> u64" where
  "node_quantity h n = (case h n of None \<Rightarrow> 0 | Some nd \<Rightarrow> quantity (order nd))"

definition queue_sum :: "heap \<Rightarrow> node_ptr list \<Rightarrow> u64" where
  "queue_sum h ns = sum_list (map (node_quantity h) ns)"

text \<open>The sum of the same quantities as numbers, which does not wrap.\<close>

definition queue_sum_nat :: "heap \<Rightarrow> node_ptr list \<Rightarrow> nat" where
  "queue_sum_nat h ns = (\<Sum>n\<leftarrow>ns. unat (node_quantity h n))"

text \<open>All nodes of a side and of the book, level by level, with repetitions.\<close>

definition side_nodes :: "side_map \<Rightarrow> node_ptr list" where
  "side_nodes m = concat (map (\<lambda>e. orders (snd e)) m)"

definition book_nodes :: "OrderBook \<Rightarrow> node_ptr list" where
  "book_nodes b = side_nodes (bids b) @ side_nodes (asks b)"

text \<open>The invariant of the three indices and the pool.\<close>

definition sorted_sides :: "OrderBook \<Rightarrow> bool" where
  "sorted_sides b \<longleftrightarrow> sorted_wrt (>) (map fst (bids b)) \<and> sorted_wrt (<) (map fst (asks b))"

definition levels_nonempty :: "OrderBook \<Rightarrow> bool" where
  "levels_nonempty b \<longleftrightarrow> (\<forall>buy p q. side_find p (side_of buy b) = Some q \<longrightarrow> orders q \<noteq> [])"

definition queues_ok :: "OrderBook \<Rightarrow> bool" where
  "queues_ok b \<longleftrightarrow>
     (\<forall>buy p. distinct (queue_at b buy p) \<and>
        total_at b buy p = queue_sum (nodes b) (queue_at b buy p) \<and>
        (\<forall>n \<in> set (queue_at b buy p).
           \<exists>nd. nodes b n = Some nd \<and> is_buy (order nd) = buy \<and> price (order nd) = p))"

definition index_ok :: "OrderBook \<Rightarrow> bool" where
  "index_ok b \<longleftrightarrow>
     (\<forall>oid n. fmlookup (order_lookup b) oid = Some n \<longrightarrow>
        (\<exists>nd. nodes b n = Some nd \<and> order_id (order nd) = oid \<and>
              n \<in> set (queue_at b (is_buy (order nd)) (price (order nd)))))"

definition heap_ok :: "OrderBook \<Rightarrow> bool" where
  "heap_ok b \<longleftrightarrow>
     (\<forall>n nd. nodes b n = Some nd \<longrightarrow> fmlookup (order_lookup b) (order_id (order nd)) = Some n)"

definition pool_ok :: "OrderBook \<Rightarrow> bool" where
  "pool_ok b \<longleftrightarrow>
     current_slot (order_pool b) \<le> BlockSize \<and>
     length (blocks (order_pool b)) = current_block (order_pool b) + 1 \<and>
     (\<forall>blk slot. nodes b (blk, slot) \<noteq> None \<longrightarrow>
        blk < current_block (order_pool b) \<or>
        (blk = current_block (order_pool b) \<and> slot < current_slot (order_pool b)))"

definition book_inv :: "OrderBook \<Rightarrow> bool" where
  "book_inv b \<longleftrightarrow>
     sorted_sides b \<and> levels_nonempty b \<and> queues_ok b \<and> index_ok b \<and> heap_ok b \<and> pool_ok b \<and>
     distinct (book_nodes b) \<and> get_order_count b = length (book_nodes b)"

text \<open>One snapshot entry of a level, as \<^verbatim>\<open>emplace_back(price, level.get_total_quantity())\<close> builds it.\<close>

definition level_entry :: "real \<times> PriceLevelQueue \<Rightarrow> PriceLevel" where
  "level_entry e = PriceLevel (fst e) (total_quantity (snd e))"

text \<open>\<^verbatim>\<open>add_order(o)\<close> followed by \<^verbatim>\<open>cancel_order(o.order_id)\<close>.\<close>

definition add_then_cancel :: "Order \<Rightarrow> OrderBook \<Rightarrow> OrderBook option" where
  "add_then_cancel ord b =
     (case add_order ord b of
        None \<Rightarrow> None
      | Some b1 \<Rightarrow>
          (case cancel_order (order_id ord) b1 of None \<Rightarrow> None | Some rb \<Rightarrow> Some (snd rb)))"

subsection \<open>A small book\<close>

text \<open>
  The constructor \<^verbatim>\<open>Order(id, buy, p, q, ts)\<close>, three orders, and the books after
  adding the first, the first two and all three of them to a new book.
\<close>

definition Order_new :: "u64 \<Rightarrow> bool \<Rightarrow> real \<Rightarrow> u64 \<Rightarrow> u64 \<Rightarrow> Order" where
  "Order_new oid buy p q ts =
     \<lparr>order_id = oid, is_buy = buy, price = p, quantity = q, timestamp_ns = ts\<rparr>"

definition order1 :: Order where
  "order1 = Order_new 1 True 100 10 0"

definition order2 :: Order where
  "order2 = Order_new 2 True 100 20 0"

definition order3 :: Order where
  "order3 = Order_new 3 False 101 25 0"

definition book1 :: OrderBook where
  "book1 = \<lparr>bids = [(100, \<lparr>orders = [(0, 0)], total_quantity = 10\<rparr>)],
            asks = [],
            order_lookup = fmupd 1 (0, 0) fmempty,
            order_pool = \<lparr>blocks = [0], current_block = 0, current_slot = 1\<rparr>,
            nodes = [(0, 0) \<mapsto> \<lparr>order = order1\<rparr>]\<rparr>"

definition book2 :: OrderBook where
  "book2 = \<lparr>bids = [(100, \<lparr>orders = [(0, 0), (0, 1)], total_quantity = 30\<rparr>)],
            asks = [],
            order_lookup = fmupd 2 (0, 1) (fmupd 1 (0, 0) fmempty),
            order_pool = \<lparr>blocks = [0], current_block = 0, current_slot = 2\<rparr>,
            nodes = [(0, 0) \<mapsto> \<lparr>order = order1\<rparr>, (0, 1) \<mapsto> \<lparr>order = order2\<rparr>]\<rparr>"

definition book3 :: OrderBook where
  "book3 = \<lparr>bids = [(100, \<lparr>orders = [(0, 0), (0, 1)], total_quantity = 30\<rparr>)],
            asks = [(101, \<lparr>orders = [(0, 2)], total_quantity = 25\<rparr>)],
            order_lookup = fmupd 3 (0, 2) (fmupd 2 (0, 1) (fmupd 1 (0, 0) fmempty)),
            order_pool = \<lparr>blocks = [0], current_block = 0, current_slot = 3\<rparr>,
            nodes = [(0, 0) \<mapsto> \<lparr>order = order1\<rparr>, (0, 1) \<mapsto> \<lparr>order = order2\<rparr>,
                     (0, 2) \<mapsto> \<lparr>order = order3\<rparr>]\<rparr>"

text \<open>
  Two buy orders at one price whose quantities, \<open>2 ^ 64 - 1\<close> and \<open>2\<close>, add up to more than
  a \<^verbatim>\<open>uint64_t\<close> holds, and the books after adding the first and both to a new book.
\<close>

definition order_max :: Order where
  "order_max = Order_new 1 True 100 18446744073709551615 0"

definition order_two :: Order where
  "order_two = Order_new 2 True 100 2 0"

definition wrap_book1 :: OrderBook where
  "wrap_book1 = \<lparr>bids = [(100, \<lparr>orders = [(0, 0)], total_quantity = 18446744073709551615\<rparr>)],
                 asks = [],
                 order_lookup = fmupd 1 (0, 0) fmempty,
                 order_pool = \<lparr>blocks = [0], current_block = 0, current_slot = 1\<rparr>,
                 nodes = [(0, 0) \<mapsto> \<lparr>order = order_max\<rparr>]\<rparr>"

definition wrap_book2 :: OrderBook where
  "wrap_book2 = \<lparr>bids = [(100, \<lparr>orders = [(0, 0), (0, 1)], total_quantity = 1\<rparr>)],
                 asks = [],
                 order_lookup = fmupd 2 (0, 1) (fmupd 1 (0, 0) fmempty),
                 order_pool = \<lparr>blocks = [0], current_block = 0, current_slot = 2\<rparr>,
                 nodes = [(0, 0) \<mapsto> \<lparr>order = order_max\<rparr>, (0, 1) \<mapsto> \<lparr>order = order_two\<rparr>]\<rparr>"

section \<open>The side maps\<close>


lemma side_find_Nil [simp]: "side_find k [] = None"
  by (simp add: side_find_def)

lemma side_find_Cons: "side_find k ((k', v) # m) = (if k = k' then Some v else side_find k m)"
  by (simp add: side_find_def)

lemma side_find_put:
  "ord_cmp cmp \<Longrightarrow> side_find k' (side_put cmp k v m) = (if k' = k then Some v else side_find k' m)"
  by (induction m) (auto simp: ord_cmp_def side_find_Cons)

lemma side_find_None_iff: "side_find k m = None \<longleftrightarrow> k \<notin> set (map fst m)"
  by (simp add: side_find_def map_of_eq_None_iff)

lemma side_keys_put:
  assumes "ord_cmp cmp"
  shows "set (map fst (side_put cmp k v m)) = insert k (set (map fst m))"
proof -
  have "x \<in> set (map fst (side_put cmp k v m)) \<longleftrightarrow> x \<in> insert k (set (map fst m))" for x
    using side_find_put [OF assms, of x k v m]
      side_find_None_iff [of x "side_put cmp k v m"] side_find_None_iff [of x m]
    by (cases "x = k") auto
  then show ?thesis by blast
qed

lemma sorted_put:
  "ord_cmp cmp \<Longrightarrow> sorted_wrt cmp (map fst m) \<Longrightarrow> sorted_wrt cmp (map fst (side_put cmp k v m))"
proof (induction m)
  case Nil
  then show ?case by simp
next
  case (Cons e m)
  obtain k' v' where e: "e = (k', v')" by (cases e)
  have keys: "set (map fst (side_put cmp k v m)) = insert k (set (map fst m))"
    using Cons.prems(1) by (rule side_keys_put)
  from Cons e keys show ?case
    by (auto simp: ord_cmp_def)
qed

lemma sorted_head_notin:
  "ord_cmp cmp \<Longrightarrow> sorted_wrt cmp (map fst ((k, v) # m)) \<Longrightarrow> side_find k m = None"
  by (auto simp: ord_cmp_def side_find_None_iff)

lemma side_find_erase:
  "ord_cmp cmp \<Longrightarrow> sorted_wrt cmp (map fst m) \<Longrightarrow>
   side_find k' (side_erase k m) = (if k' = k then None else side_find k' m)"
proof (induction m)
  case Nil
  then show ?case by simp
next
  case (Cons e m)
  obtain k0 v0 where e: "e = (k0, v0)" by (cases e)
  have "side_find k0 m = None"
    using Cons.prems e sorted_head_notin by blast
  with Cons e show ?case
    by (auto simp: side_find_Cons)
qed

lemma side_entries_erase: "set (side_erase k m) \<subseteq> set m"
  by (induction m) (auto split: if_splits)

lemma sorted_erase:
  "sorted_wrt cmp (map fst m) \<Longrightarrow> sorted_wrt cmp (map fst (side_erase k m))"
proof (induction m)
  case Nil
  then show ?case by simp
next
  case (Cons e m)
  then show ?case using side_entries_erase [of k m] by (cases e) auto
qed

lemma side_nodes_erase:
  "mset (side_nodes (side_erase k m)) + mset (orders (side_get_or_create k m))
     = mset (side_nodes m)"
  by (induction m)
     (auto simp: side_nodes_def side_get_or_create_def side_find_Cons PriceLevelQueue_new_def)

lemma side_nodes_put:
  "ord_cmp cmp \<Longrightarrow> sorted_wrt cmp (map fst m) \<Longrightarrow>
   mset (side_nodes (side_put cmp k v m)) + mset (orders (side_get_or_create k m))
     = mset (side_nodes m) + mset (orders v)"
proof (induction m)
  case Nil
  then show ?case
    by (simp add: side_nodes_def side_get_or_create_def PriceLevelQueue_new_def)
next
  case (Cons e m)
  obtain k' v' where e: "e = (k', v')" by (cases e)
  show ?case
  proof (cases "cmp k k'")
    case True
    then have "k \<notin> set (map fst (e # m))"
      using Cons.prems e by (auto simp: ord_cmp_def)
    then have "side_find k (e # m) = None"
      by (simp only: side_find_None_iff not_False_eq_True)
    with True e show ?thesis
      by (simp add: side_nodes_def side_get_or_create_def PriceLevelQueue_new_def)
  next
    case False
    with Cons e show ?thesis
      by (auto simp: side_nodes_def side_get_or_create_def side_find_Cons ord_cmp_def)
  qed
qed

lemma side_erase_put:
  "ord_cmp cmp \<Longrightarrow> sorted_wrt cmp (map fst m) \<Longrightarrow> side_find k m = None \<Longrightarrow>
   side_erase k (side_put cmp k v m) = m"
  by (induction m) (auto simp: side_find_Cons ord_cmp_def split: if_splits)

lemma side_put_put:
  "ord_cmp cmp \<Longrightarrow> side_put cmp k v (side_put cmp k v' m) = side_put cmp k v m"
  by (induction m) (auto simp: ord_cmp_def)

lemma side_put_same:
  "ord_cmp cmp \<Longrightarrow> sorted_wrt cmp (map fst m) \<Longrightarrow> side_find k m = Some v \<Longrightarrow>
   side_put cmp k v m = m"
proof (induction m)
  case Nil
  then show ?case by simp
next
  case (Cons e m)
  obtain k' v' where e: "e = (k', v')" by (cases e)
  show ?case
  proof (cases "cmp k k'")
    case True
    then have "k \<notin> set (map fst (e # m))"
      using Cons.prems e by (auto simp: ord_cmp_def)
    then have "side_find k (e # m) = None"
      by (simp only: side_find_None_iff not_False_eq_True)
    with Cons.prems show ?thesis by simp
  next
    case False
    with Cons e show ?thesis
      by (auto simp: side_find_Cons ord_cmp_def split: if_splits)
  qed
qed

section \<open>Effect of the helpers on the two sides\<close>


lemma ord_cmp_cmp_of: "ord_cmp (cmp_of buy)"
  by (simp add: ord_cmp_def cmp_of_def)

lemma side_of_set_side:
  "side_of buy' (set_side buy m b) = (if buy' = buy then m else side_of buy' b)"
  by (auto simp: side_of_def set_side_def)

lemma set_side_fields:
  "nodes (set_side buy m b) = nodes b"
  "order_lookup (set_side buy m b) = order_lookup b"
  "order_pool (set_side buy m b) = order_pool b"
  by (simp_all add: set_side_def)

lemma sorted_sides_iff:
  "sorted_sides b \<longleftrightarrow> (\<forall>buy. sorted_wrt (cmp_of buy) (map fst (side_of buy b)))"
  by (auto simp: sorted_sides_def cmp_of_def side_of_def)

lemma mset_book_nodes:
  "mset (book_nodes b) = mset (side_nodes (side_of True b)) + mset (side_nodes (side_of False b))"
  by (simp add: book_nodes_def side_of_def)

lemma mset_book_nodes_set_side:
  "mset (book_nodes (set_side buy m b)) + mset (side_nodes (side_of buy b))
     = mset (book_nodes b) + mset (side_nodes m)"
  by (cases buy) (simp_all add: mset_book_nodes side_of_set_side)

lemma queue_at_set_side:
  "queue_at (set_side buy m b) buy' p =
     (if buy' = buy then (case side_find p m of None \<Rightarrow> [] | Some q \<Rightarrow> orders q)
      else queue_at b buy' p)"
  by (simp add: queue_at_def side_of_set_side)

lemma total_at_set_side:
  "total_at (set_side buy m b) buy' p =
     (if buy' = buy then (case side_find p m of None \<Rightarrow> 0 | Some q \<Rightarrow> total_quantity q)
      else total_at b buy' p)"
  by (simp add: total_at_def side_of_set_side)

lemma orders_get_or_create: "orders (side_get_or_create p (side_of buy b)) = queue_at b buy p"
  by (simp add: side_get_or_create_def queue_at_def PriceLevelQueue_new_def split: option.split)

lemma total_get_or_create:
  "total_quantity (side_get_or_create p (side_of buy b)) = total_at b buy p"
  by (simp add: side_get_or_create_def total_at_def PriceLevelQueue_new_def split: option.split)

lemma add_to_side_eq:
  assumes "nodes b node = Some nd"
  shows "add_to_side node b =
     Some (set_side (is_buy (order nd))
            (side_put (cmp_of (is_buy (order nd))) (price (order nd))
               ((side_get_or_create (price (order nd)) (side_of (is_buy (order nd)) b))
                  \<lparr>orders := queue_at b (is_buy (order nd)) (price (order nd)) @ [node],
                   total_quantity := total_at b (is_buy (order nd)) (price (order nd))
                                       + quantity (order nd)\<rparr>)
               (side_of (is_buy (order nd)) b)) b)"
  using assms
  by (simp add: add_to_side_def level_add_order_def set_side_def side_of_def cmp_of_def
      orders_get_or_create [unfolded side_of_def, of _ True, simplified]
      orders_get_or_create [unfolded side_of_def, of _ False, simplified]
      total_get_or_create [unfolded side_of_def, of _ True, simplified]
      total_get_or_create [unfolded side_of_def, of _ False, simplified])

lemma add_to_side_effect:
  assumes nd: "nodes b node = Some nd" and srt: "sorted_sides b"
  shows "\<exists>b'. add_to_side node b = Some b' \<and>
     nodes b' = nodes b \<and> order_lookup b' = order_lookup b \<and> order_pool b' = order_pool b \<and>
     (\<forall>buy p. queue_at b' buy p =
        (if buy = is_buy (order nd) \<and> p = price (order nd) then queue_at b buy p @ [node]
         else queue_at b buy p)) \<and>
     (\<forall>buy p. total_at b' buy p =
        (if buy = is_buy (order nd) \<and> p = price (order nd)
         then total_at b buy p + quantity (order nd) else total_at b buy p)) \<and>
     sorted_sides b' \<and> (levels_nonempty b \<longrightarrow> levels_nonempty b') \<and>
     mset (book_nodes b') = add_mset node (mset (book_nodes b))"
proof -
  define buy0 where "buy0 = is_buy (order nd)"
  define p0 where "p0 = price (order nd)"
  define lvl where "lvl = (side_get_or_create p0 (side_of buy0 b))
       \<lparr>orders := queue_at b buy0 p0 @ [node],
        total_quantity := total_at b buy0 p0 + quantity (order nd)\<rparr>"
  define b' where "b' = set_side buy0 (side_put (cmp_of buy0) p0 lvl (side_of buy0 b)) b"
  have eq: "add_to_side node b = Some b'"
    unfolding b'_def lvl_def buy0_def p0_def using nd by (rule add_to_side_eq)
  have find: "side_find p (side_of buy b') =
      (if buy = buy0 \<and> p = p0 then Some lvl else side_find p (side_of buy b))" for buy p
    by (simp add: b'_def side_of_set_side side_find_put ord_cmp_cmp_of)
  have q: "queue_at b' buy p = (if buy = buy0 \<and> p = p0 then queue_at b buy p @ [node]
         else queue_at b buy p)" for buy p
    by (simp add: queue_at_def find lvl_def)
  have t: "total_at b' buy p = (if buy = buy0 \<and> p = p0
         then total_at b buy p + quantity (order nd) else total_at b buy p)" for buy p
    by (simp add: total_at_def find lvl_def)
  have s0: "sorted_wrt (cmp_of buy0) (map fst (side_of buy0 b))"
    using srt by (simp add: sorted_sides_iff)
  have s: "sorted_sides b'"
    using srt by (simp add: sorted_sides_iff b'_def side_of_set_side sorted_put ord_cmp_cmp_of)
  have ne: "levels_nonempty b \<longrightarrow> levels_nonempty b'"
    by (auto simp: levels_nonempty_def find lvl_def split: if_splits)
  have e1: "mset (book_nodes b') + mset (side_nodes (side_of buy0 b))
      = mset (book_nodes b) + mset (side_nodes (side_put (cmp_of buy0) p0 lvl (side_of buy0 b)))"
    unfolding b'_def by (rule mset_book_nodes_set_side)
  have e2: "mset (side_nodes (side_put (cmp_of buy0) p0 lvl (side_of buy0 b)))
        + mset (queue_at b buy0 p0)
      = mset (side_nodes (side_of buy0 b)) + mset (orders lvl)"
    using side_nodes_put [OF ord_cmp_cmp_of s0, of p0 lvl]
    by (simp only: orders_get_or_create)
  have e3: "mset (orders lvl) = add_mset node (mset (queue_at b buy0 p0))"
    by (simp add: lvl_def)
  have "mset (book_nodes b') + (mset (side_nodes (side_of buy0 b)) + mset (queue_at b buy0 p0))
      = mset (book_nodes b) + (mset (side_nodes (side_put (cmp_of buy0) p0 lvl (side_of buy0 b)))
          + mset (queue_at b buy0 p0))"
    using e1 by (simp only: add.assoc [symmetric])
  also have "\<dots> = add_mset node (mset (book_nodes b))
       + (mset (side_nodes (side_of buy0 b)) + mset (queue_at b buy0 p0))"
    by (simp only: e2 e3) simp
  finally have m: "mset (book_nodes b') = add_mset node (mset (book_nodes b))"
    by (simp only: add_right_cancel)
  have "nodes b' = nodes b" "order_lookup b' = order_lookup b" "order_pool b' = order_pool b"
    by (simp_all add: b'_def set_side_fields)
  with eq q t s ne m show ?thesis
    unfolding buy0_def p0_def by blast
qed

lemma remove1_Nil_iff: "x \<in> set xs \<Longrightarrow> remove1 x xs = [] \<longleftrightarrow> xs = [x]"
  by (cases xs) (auto split: if_splits)

lemma remove_from_side_eq:
  assumes "nodes b node = Some nd"
    and "side_find (price (order nd)) (side_of (is_buy (order nd)) b) = Some q"
    and "node \<in> set (orders q)"
  shows "remove_from_side node b =
     Some (set_side (is_buy (order nd))
            (if remove1 node (orders q) = []
             then side_erase (price (order nd)) (side_of (is_buy (order nd)) b)
             else side_put (cmp_of (is_buy (order nd))) (price (order nd))
                    (q\<lparr>total_quantity := total_quantity q - quantity (order nd),
                       orders := remove1 node (orders q)\<rparr>)
                    (side_of (is_buy (order nd)) b)) b)"
  using assms
  by (cases "is_buy (order nd)")
     (simp_all add: remove_from_side_def level_remove_order_def level_is_empty_def set_side_def
      side_of_def cmp_of_def)

lemma remove_from_side_effect:
  assumes nd: "nodes b node = Some nd"
    and mem: "node \<in> set (queue_at b (is_buy (order nd)) (price (order nd)))"
    and srt: "sorted_sides b" and ne: "levels_nonempty b"
    and tot: "total_at b (is_buy (order nd)) (price (order nd))
                = queue_sum (nodes b) (queue_at b (is_buy (order nd)) (price (order nd)))"
  shows "\<exists>b'. remove_from_side node b = Some b' \<and>
     nodes b' = nodes b \<and> order_lookup b' = order_lookup b \<and> order_pool b' = order_pool b \<and>
     (\<forall>buy p. queue_at b' buy p =
        (if buy = is_buy (order nd) \<and> p = price (order nd) then remove1 node (queue_at b buy p)
         else queue_at b buy p)) \<and>
     (\<forall>buy p. total_at b' buy p =
        (if buy = is_buy (order nd) \<and> p = price (order nd)
         then total_at b buy p - quantity (order nd) else total_at b buy p)) \<and>
     sorted_sides b' \<and> levels_nonempty b' \<and>
     add_mset node (mset (book_nodes b')) = mset (book_nodes b)"
proof -
  define buy0 where "buy0 = is_buy (order nd)"
  define p0 where "p0 = price (order nd)"
  from mem obtain q where q: "side_find p0 (side_of buy0 b) = Some q" and nq: "node \<in> set (orders q)"
    by (cases "side_find p0 (side_of buy0 b)") (auto simp: queue_at_def buy0_def p0_def)
  have qa: "queue_at b buy0 p0 = orders q" and ta: "total_at b buy0 p0 = total_quantity q"
    using q by (simp_all add: queue_at_def total_at_def)
  have goc: "side_get_or_create p0 (side_of buy0 b) = q"
    using q by (simp add: side_get_or_create_def)
  define lvl where "lvl = q\<lparr>total_quantity := total_quantity q - quantity (order nd),
                       orders := remove1 node (orders q)\<rparr>"
  define m' where "m' = (if remove1 node (orders q) = [] then side_erase p0 (side_of buy0 b)
      else side_put (cmp_of buy0) p0 lvl (side_of buy0 b))"
  define b' where "b' = set_side buy0 m' b"
  have eq: "remove_from_side node b = Some b'"
    using remove_from_side_eq [OF nd q [unfolded buy0_def p0_def] nq]
    by (simp add: b'_def m'_def lvl_def buy0_def p0_def)
  have s0: "sorted_wrt (cmp_of buy0) (map fst (side_of buy0 b))"
    using srt by (simp add: sorted_sides_iff)
  have find: "side_find p (side_of buy b') =
      (if buy = buy0 \<and> p = p0 then (if remove1 node (orders q) = [] then None else Some lvl)
       else side_find p (side_of buy b))" for buy p
    by (simp add: b'_def m'_def side_of_set_side side_find_put ord_cmp_cmp_of
        side_find_erase [OF ord_cmp_cmp_of s0])
  have qq: "queue_at b' buy p = (if buy = buy0 \<and> p = p0 then remove1 node (queue_at b buy p)
         else queue_at b buy p)" for buy p
    using qa by (simp add: queue_at_def find lvl_def)
  have single: "remove1 node (orders q) = [] \<Longrightarrow> total_quantity q = quantity (order nd)"
    using tot nq nd
    by (simp add: remove1_Nil_iff qa ta buy0_def [symmetric] p0_def [symmetric]
        queue_sum_def node_quantity_def)
  have t: "total_at b' buy p = (if buy = buy0 \<and> p = p0
         then total_at b buy p - quantity (order nd) else total_at b buy p)" for buy p
    using ta single by (simp add: total_at_def find lvl_def)
  have s: "sorted_sides b'"
    using srt
    by (simp add: sorted_sides_iff b'_def m'_def side_of_set_side sorted_put sorted_erase
        ord_cmp_cmp_of)
  have ne': "levels_nonempty b'"
    using ne by (auto simp: levels_nonempty_def find lvl_def split: if_splits)
  have e1: "mset (book_nodes b') + mset (side_nodes (side_of buy0 b))
      = mset (book_nodes b) + mset (side_nodes m')"
    unfolding b'_def by (rule mset_book_nodes_set_side)
  have e2: "add_mset node (mset (side_nodes m')) = mset (side_nodes (side_of buy0 b))"
  proof (cases "remove1 node (orders q) = []")
    case True
    then have "orders q = [node]" using nq by (simp add: remove1_Nil_iff)
    then show ?thesis
      using side_nodes_erase [of p0 "side_of buy0 b"] True by (simp add: m'_def goc)
  next
    case False
    define R where "R = mset (orders lvl)"
    have a: "mset (orders q) = add_mset node R"
      using nq by (simp add: R_def lvl_def)
    have "mset (side_nodes (side_put (cmp_of buy0) p0 lvl (side_of buy0 b))) + mset (orders q)
        = mset (side_nodes (side_of buy0 b)) + R"
      using side_nodes_put [OF ord_cmp_cmp_of s0, of p0 lvl] by (simp only: goc R_def)
    then have "add_mset node (mset (side_nodes (side_put (cmp_of buy0) p0 lvl (side_of buy0 b)))) + R
        = mset (side_nodes (side_of buy0 b)) + R"
      by (simp only: a) simp
    then have "add_mset node (mset (side_nodes (side_put (cmp_of buy0) p0 lvl (side_of buy0 b))))
        = mset (side_nodes (side_of buy0 b))"
      by (simp only: add_right_cancel)
    then show ?thesis
      using False by (simp add: m'_def)
  qed
  have "add_mset node (mset (book_nodes b')) + mset (side_nodes m')
      = mset (book_nodes b) + mset (side_nodes m')"
    using e1 e2 [symmetric] by simp
  then have m: "add_mset node (mset (book_nodes b')) = mset (book_nodes b)"
    by (simp only: add_right_cancel)
  have "nodes b' = nodes b" "order_lookup b' = order_lookup b" "order_pool b' = order_pool b"
    by (simp_all add: b'_def set_side_fields)
  with eq qq t s ne' m show ?thesis
    unfolding buy0_def p0_def by blast
qed

section \<open>The invariant is preserved\<close>

lemma sorted_wrt_distinct: "ord_cmp cmp \<Longrightarrow> sorted_wrt cmp xs \<Longrightarrow> distinct xs"
  by (induction xs) (auto simp: ord_cmp_def)

lemma in_side_nodes_iff:
  assumes "distinct (map fst m)"
  shows "n \<in> set (side_nodes m) \<longleftrightarrow> (\<exists>p q. side_find p m = Some q \<and> n \<in> set (orders q))"
proof -
  have "n \<in> set (side_nodes m) \<longleftrightarrow> (\<exists>p q. (p, q) \<in> set m \<and> n \<in> set (orders q))"
    by (force simp: side_nodes_def)
  also have "\<dots> \<longleftrightarrow> (\<exists>p q. side_find p m = Some q \<and> n \<in> set (orders q))"
    using assms by (simp add: side_find_def)
  finally show ?thesis .
qed

lemma in_book_nodes_iff:
  assumes "sorted_sides b"
  shows "n \<in> set (book_nodes b) \<longleftrightarrow> (\<exists>buy p. n \<in> set (queue_at b buy p))"
proof -
  have d: "distinct (map fst (side_of buy b))" for buy
    using assms by (auto simp: sorted_sides_iff intro: sorted_wrt_distinct [OF ord_cmp_cmp_of])
  have q: "n \<in> set (queue_at b buy p) \<longleftrightarrow> (\<exists>q. side_find p (side_of buy b) = Some q \<and> n \<in> set (orders q))"
    for buy p
    by (cases "side_find p (side_of buy b)") (simp_all add: queue_at_def)
  have "n \<in> set (book_nodes b) \<longleftrightarrow>
      n \<in> set (side_nodes (side_of True b)) \<or> n \<in> set (side_nodes (side_of False b))"
    by (simp add: book_nodes_def side_of_def)
  also have "\<dots> \<longleftrightarrow> (\<exists>buy. n \<in> set (side_nodes (side_of buy b)))"
    by (metis (full_types))
  also have "\<dots> \<longleftrightarrow> (\<exists>buy p. n \<in> set (queue_at b buy p))"
    by (simp only: in_side_nodes_iff [OF d] q)
  finally show ?thesis .
qed

lemma sides_frame:
  assumes "bids b' = bids b" "asks b' = asks b"
  shows "queue_at b' = queue_at b" "total_at b' = total_at b" "sorted_sides b' = sorted_sides b"
    "levels_nonempty b' = levels_nonempty b" "book_nodes b' = book_nodes b"
  using assms
  by (simp_all add: queue_at_def total_at_def sorted_sides_def levels_nonempty_def book_nodes_def
      side_of_def fun_eq_iff)

lemma queue_sum_cong:
  "(\<And>n. n \<in> set xs \<Longrightarrow> h' n = h n) \<Longrightarrow> queue_sum h' xs = queue_sum h xs"
  by (induction xs) (simp_all add: queue_sum_def node_quantity_def)

lemma queue_sum_Cons: "queue_sum h (x # xs) = node_quantity h x + queue_sum h xs"
  by (simp add: queue_sum_def)

lemma node_quantity_upd:
  "node_quantity (h(n \<mapsto> nd)) x = (if x = n then quantity (order nd) else node_quantity h x)"
  by (simp add: node_quantity_def)

lemma queue_sum_snoc: "queue_sum h (xs @ [n]) = queue_sum h xs + node_quantity h n"
  by (simp add: queue_sum_def)

lemma queue_sum_remove1:
  "n \<in> set xs \<Longrightarrow> queue_sum h (remove1 n xs) = queue_sum h xs - node_quantity h n"
  by (induction xs) (auto simp: queue_sum_def)

lemma queue_sum_update:
  assumes "distinct xs" "n \<in> set xs"
  shows "queue_sum (h(n \<mapsto> nd)) xs = queue_sum h xs - node_quantity h n + quantity (order nd)"
proof -
  have r: "n \<notin> set (remove1 n xs)"
    using assms by simp
  have "queue_sum (h(n \<mapsto> nd)) xs
      = queue_sum (h(n \<mapsto> nd)) (remove1 n xs) + node_quantity (h(n \<mapsto> nd)) n"
    using queue_sum_remove1 [OF assms(2), of "h(n \<mapsto> nd)"] by simp
  also have "queue_sum (h(n \<mapsto> nd)) (remove1 n xs) = queue_sum h (remove1 n xs)"
    using r by (intro queue_sum_cong) auto
  also have "\<dots> = queue_sum h xs - node_quantity h n"
    using assms(2) by (rule queue_sum_remove1)
  also have "node_quantity (h(n \<mapsto> nd)) n = quantity (order nd)"
    by (simp add: node_quantity_def)
  finally show ?thesis .
qed

lemma queue_node_live:
  "queues_ok b \<Longrightarrow> n \<in> set (queue_at b buy p) \<Longrightarrow>
   \<exists>nd. nodes b n = Some nd \<and> is_buy (order nd) = buy \<and> price (order nd) = p"
  by (simp add: queues_ok_def)

lemma dead_not_queued: "queues_ok b \<Longrightarrow> nodes b n = None \<Longrightarrow> n \<notin> set (queue_at b buy p)"
  using queue_node_live by fastforce

lemma stored_node:
  "nodes b' = (nodes b)(node \<mapsto> \<lparr>order = ord\<rparr>) \<Longrightarrow> nodes b' node = Some nd \<Longrightarrow> order nd = ord"
  by (metis fun_upd_same option.inject OrderNode.select_convs(1))

lemma inv_after_add:
  assumes inv: "book_inv b"
    and fresh_id: "fmlookup (order_lookup b) (order_id ord) = None"
    and fresh: "nodes b node = None"
    and h': "nodes b' = (nodes b)(node \<mapsto> \<lparr>order = ord\<rparr>)"
    and lk': "order_lookup b' = fmupd (order_id ord) node (order_lookup b)"
    and q': "\<And>buy p. queue_at b' buy p =
        (if buy = is_buy ord \<and> p = price ord then queue_at b buy p @ [node] else queue_at b buy p)"
    and t': "\<And>buy p. total_at b' buy p =
        (if buy = is_buy ord \<and> p = price ord then total_at b buy p + quantity ord
         else total_at b buy p)"
    and srt: "sorted_sides b'" and ne: "levels_nonempty b'"
    and ms: "mset (book_nodes b') = add_mset node (mset (book_nodes b))"
    and pool: "pool_ok b'"
  shows "book_inv b'"
proof -
  from inv have qok: "queues_ok b" and iok: "index_ok b" and hok: "heap_ok b"
    and dist: "distinct (book_nodes b)" and cnt: "get_order_count b = length (book_nodes b)"
    and srt0: "sorted_sides b"
    by (simp_all add: book_inv_def)
  have qa: "queue_at b' (is_buy ord) (price ord) = queue_at b (is_buy ord) (price ord) @ [node]"
    by (simp add: q')
  have qb: "queue_at b' buy p = queue_at b buy p" if "\<not> (buy = is_buy ord \<and> p = price ord)" for buy p
    using that q' [of buy p] by auto
  have ta: "total_at b' (is_buy ord) (price ord) = total_at b (is_buy ord) (price ord) + quantity ord"
    by (simp add: t')
  have tb: "total_at b' buy p = total_at b buy p" if "\<not> (buy = is_buy ord \<and> p = price ord)" for buy p
    using that t' [of buy p] by auto
  have mono: "set (queue_at b buy p) \<subseteq> set (queue_at b' buy p)" for buy p
    using qa qb [of buy p] by (cases "buy = is_buy ord \<and> p = price ord") auto
  have nq: "node \<notin> set (queue_at b buy p)" for buy p
    using qok fresh by (rule dead_not_queued)
  have same: "nodes b' n = nodes b n" if "n \<in> set (queue_at b buy p)" for n buy p
  proof -
    have "n \<noteq> node" using that nq [of buy p] by auto
    then show ?thesis by (simp add: h')
  qed
  have sum: "queue_sum (nodes b') (queue_at b buy p) = queue_sum (nodes b) (queue_at b buy p)"
    for buy p
    by (rule queue_sum_cong) (rule same)
  have nqn: "node_quantity (nodes b') node = quantity ord"
    by (simp add: h' node_quantity_def)
  have "queues_ok b'"
    unfolding queues_ok_def
  proof (intro allI conjI ballI)
    fix buy p
    have d0: "distinct (queue_at b buy p)"
      and t0: "total_at b buy p = queue_sum (nodes b) (queue_at b buy p)"
      using qok by (simp_all add: queues_ok_def)
    show "distinct (queue_at b' buy p)"
    proof (cases "buy = is_buy ord \<and> p = price ord")
      case True
      then have "queue_at b' buy p = queue_at b buy p @ [node]" using qa by simp
      then show ?thesis using d0 nq [of buy p] by simp
    next
      case False
      then show ?thesis using d0 by (simp add: qb)
    qed
    show "total_at b' buy p = queue_sum (nodes b') (queue_at b' buy p)"
    proof (cases "buy = is_buy ord \<and> p = price ord")
      case True
      then have "queue_at b' buy p = queue_at b buy p @ [node]"
        and "total_at b' buy p = total_at b buy p + quantity ord"
        using qa ta by simp_all
      then show ?thesis using t0 sum [of buy p] nqn by (simp add: queue_sum_snoc)
    next
      case False
      then show ?thesis using t0 sum [of buy p] by (simp add: qb tb)
    qed
  next
    fix buy p n
    assume n: "n \<in> set (queue_at b' buy p)"
    show "\<exists>nd. nodes b' n = Some nd \<and> is_buy (order nd) = buy \<and> price (order nd) = p"
    proof (cases "n = node")
      case True
      have "buy = is_buy ord \<and> p = price ord"
      proof (rule ccontr)
        assume "\<not> (buy = is_buy ord \<and> p = price ord)"
        then have "queue_at b' buy p = queue_at b buy p" by (rule qb)
        with n True nq [of buy p] show False by simp
      qed
      then show ?thesis
        by (simp add: True h')
    next
      case False
      have "n \<in> set (queue_at b buy p)"
      proof (cases "buy = is_buy ord \<and> p = price ord")
        case True
        then have "queue_at b' buy p = queue_at b buy p @ [node]" using qa by simp
        with n False show ?thesis by simp
      next
        case False
        with n show ?thesis by (simp add: qb)
      qed
      then show ?thesis
        using queue_node_live [OF qok, of n buy p] same [of n buy p] by simp
    qed
  qed
  moreover have "index_ok b'"
    unfolding index_ok_def
  proof (intro allI impI)
    fix oid n
    assume l: "fmlookup (order_lookup b') oid = Some n"
    show "\<exists>nd. nodes b' n = Some nd \<and> order_id (order nd) = oid \<and>
             n \<in> set (queue_at b' (is_buy (order nd)) (price (order nd)))"
    proof (cases "oid = order_id ord")
      case True
      with l have "n = node" by (simp add: lk')
      with True show ?thesis by (simp add: h' qa)
    next
      case False
      with l have "fmlookup (order_lookup b) oid = Some n" by (simp add: lk')
      with iok obtain nd where nd: "nodes b n = Some nd" "order_id (order nd) = oid"
        "n \<in> set (queue_at b (is_buy (order nd)) (price (order nd)))"
        unfolding index_ok_def by blast
      from nd(1) fresh have "n \<noteq> node" by auto
      then have "nodes b' n = Some nd"
        using nd(1) by (simp add: h')
      moreover have "n \<in> set (queue_at b' (is_buy (order nd)) (price (order nd)))"
        using nd(3) mono by blast
      ultimately show ?thesis
        using nd(2) by blast
    qed
  qed
  moreover have "heap_ok b'"
    unfolding heap_ok_def
  proof (intro allI impI)
    fix n nd
    assume n: "nodes b' n = Some nd"
    show "fmlookup (order_lookup b') (order_id (order nd)) = Some n"
    proof (cases "n = node")
      case True
      have "order nd = ord"
        using h' n [unfolded True] by (rule stored_node)
      then show ?thesis by (simp add: lk' True)
    next
      case False
      with n have "nodes b n = Some nd" by (simp add: h')
      with hok have l: "fmlookup (order_lookup b) (order_id (order nd)) = Some n"
        unfolding heap_ok_def by blast
      with fresh_id have "order_id (order nd) \<noteq> order_id ord" by auto
      with l show ?thesis by (simp add: lk')
    qed
  qed
  moreover have nb: "node \<notin> set (book_nodes b)"
    using nq by (simp add: in_book_nodes_iff [OF srt0])
  have ms': "mset (book_nodes b') = mset (node # book_nodes b)"
    using ms by simp
  have "distinct (book_nodes b')"
    using mset_eq_imp_distinct_iff [OF ms'] dist nb by simp
  moreover have "get_order_count b' = length (book_nodes b')"
  proof -
    have "order_id ord |\<notin>| fmdom (order_lookup b)"
      using fresh_id by (simp add: fmdom_notI)
    then have "get_order_count b' = Suc (get_order_count b)"
      by (simp add: get_order_count_def lk' fcard_finsert_disjoint)
    moreover have "length (book_nodes b') = Suc (length (book_nodes b))"
      using mset_eq_length [OF ms'] by simp
    ultimately show ?thesis using cnt by simp
  qed
  ultimately show ?thesis
    using srt ne pool by (simp add: book_inv_def)
qed

lemma construct_fresh:
  assumes pool: "pool_ok b" and c: "construct ord (order_pool b, nodes b) = (node, pl', h')"
  shows "nodes b node = None" "h' = (nodes b)(node \<mapsto> \<lparr>order = ord\<rparr>)"
    "pool_ok (b\<lparr>order_pool := pl', nodes := h'\<rparr>)"
proof -
  define pl where "pl = order_pool b"
  define p1 where "p1 = (if current_slot pl \<ge> BlockSize then allocate_block pl else pl)"
  have node: "node = (current_block p1, current_slot p1)"
    and pl': "pl' = p1\<lparr>current_slot := current_slot p1 + 1\<rparr>"
    and h': "h' = (nodes b)(node \<mapsto> \<lparr>order = ord\<rparr>)"
    using c by (auto simp: construct_def Let_def p1_def pl_def)
  from pool have slot: "current_slot pl \<le> BlockSize"
    and len: "length (blocks pl) = current_block pl + 1"
    and live: "\<And>blk slot. nodes b (blk, slot) \<noteq> None \<Longrightarrow>
        blk < current_block pl \<or> (blk = current_block pl \<and> slot < current_slot pl)"
    by (auto simp: pool_ok_def pl_def)
  have below: "blk < current_block p1 \<or> (blk = current_block p1 \<and> slot < current_slot p1)"
    if "nodes b (blk, slot) \<noteq> None" for blk slot
    using live [OF that] slot len by (auto simp: p1_def allocate_block_def Let_def)
  show fresh: "nodes b node = None"
  proof (rule ccontr)
    assume "nodes b node \<noteq> None"
    then have "nodes b (current_block p1, current_slot p1) \<noteq> None"
      using node by simp
    from below [OF this] show False by simp
  qed
  show "h' = (nodes b)(node \<mapsto> \<lparr>order = ord\<rparr>)" by (rule h')
  have s1: "current_slot p1 < BlockSize"
    using slot by (auto simp: p1_def allocate_block_def Let_def BlockSize_def)
  have l1: "length (blocks p1) = current_block p1 + 1"
    using len by (auto simp: p1_def allocate_block_def Let_def)
  show "pool_ok (b\<lparr>order_pool := pl', nodes := h'\<rparr>)"
    unfolding pool_ok_def
  proof (intro conjI allI impI)
    show "current_slot (order_pool (b\<lparr>order_pool := pl', nodes := h'\<rparr>)) \<le> BlockSize"
      using s1 by (simp add: pl')
    show "length (blocks (order_pool (b\<lparr>order_pool := pl', nodes := h'\<rparr>))) =
        current_block (order_pool (b\<lparr>order_pool := pl', nodes := h'\<rparr>)) + 1"
      using l1 by (simp add: pl')
  next
    fix blk slot
    assume a: "nodes (b\<lparr>order_pool := pl', nodes := h'\<rparr>) (blk, slot) \<noteq> None"
    show "blk < current_block (order_pool (b\<lparr>order_pool := pl', nodes := h'\<rparr>)) \<or>
       blk = current_block (order_pool (b\<lparr>order_pool := pl', nodes := h'\<rparr>)) \<and>
       slot < current_slot (order_pool (b\<lparr>order_pool := pl', nodes := h'\<rparr>))"
    proof (cases "(blk, slot) = node")
      case True
      then show ?thesis using node by (simp add: pl')
    next
      case False
      with a have "nodes b (blk, slot) \<noteq> None" by (simp add: h')
      from below [OF this] show ?thesis by (auto simp: pl')
    qed
  qed
qed

lemma pool_ok_frame:
  "order_pool b' = order_pool b \<Longrightarrow> nodes b' = nodes b \<Longrightarrow> pool_ok b' = pool_ok b"
  by (simp add: pool_ok_def)

lemma add_order_effect:
  assumes inv: "book_inv b"
    and fresh_id: "fmlookup (order_lookup b) (order_id ord) = None"
  shows "\<exists>b' node. add_order ord b = Some b' \<and> nodes b node = None \<and>
     node = fst (construct ord (order_pool b, nodes b)) \<and>
     order_pool b' = fst (snd (construct ord (order_pool b, nodes b))) \<and>
     nodes b' = (nodes b)(node \<mapsto> \<lparr>order = ord\<rparr>) \<and>
     order_lookup b' = fmupd (order_id ord) node (order_lookup b) \<and>
     (\<forall>buy p. queue_at b' buy p =
        (if buy = is_buy ord \<and> p = price ord then queue_at b buy p @ [node]
         else queue_at b buy p)) \<and>
     (\<forall>buy p. total_at b' buy p =
        (if buy = is_buy ord \<and> p = price ord then total_at b buy p + quantity ord
         else total_at b buy p)) \<and>
     book_inv b'"
proof -
  obtain node pl' h' where c: "construct ord (order_pool b, nodes b) = (node, pl', h')"
    by (cases "construct ord (order_pool b, nodes b)")
  from inv have pool: "pool_ok b" and srt0: "sorted_sides b" and ne0: "levels_nonempty b"
    by (simp_all add: book_inv_def)
  note cf = construct_fresh [OF pool c]
  define b1 where "b1 = b\<lparr>order_pool := pl', nodes := h'\<rparr>"
  have sides1: "bids b1 = bids b" "asks b1 = asks b"
    by (simp_all add: b1_def)
  note fr1 = sides_frame [OF sides1]
  have n1: "nodes b1 node = Some \<lparr>order = ord\<rparr>"
    by (simp add: b1_def cf(2))
  have srt1: "sorted_sides b1"
    using srt0 by (simp add: fr1)
  from add_to_side_effect [OF n1 srt1] obtain b2 where
    a2: "add_to_side node b1 = Some b2" and
    f2: "nodes b2 = nodes b1" "order_lookup b2 = order_lookup b1" "order_pool b2 = order_pool b1" and
    q2: "\<And>buy p. queue_at b2 buy p =
        (if buy = is_buy ord \<and> p = price ord then queue_at b1 buy p @ [node]
         else queue_at b1 buy p)" and
    t2: "\<And>buy p. total_at b2 buy p =
        (if buy = is_buy ord \<and> p = price ord then total_at b1 buy p + quantity ord
         else total_at b1 buy p)" and
    srt2: "sorted_sides b2" and ne2: "levels_nonempty b1 \<longrightarrow> levels_nonempty b2" and
    ms2: "mset (book_nodes b2) = add_mset node (mset (book_nodes b1))"
    by auto
  define b' where "b' = b2\<lparr>order_lookup := fmupd (order_id ord) node (order_lookup b2)\<rparr>"
  have sides': "bids b' = bids b2" "asks b' = asks b2"
    by (simp_all add: b'_def)
  note fr' = sides_frame [OF sides']
  have eq: "add_order ord b = Some b'"
    using fresh_id c a2 by (simp add: add_order_def b1_def b'_def)
  have h: "nodes b' = (nodes b)(node \<mapsto> \<lparr>order = ord\<rparr>)"
    by (simp add: b'_def f2 b1_def cf(2))
  have lk: "order_lookup b' = fmupd (order_id ord) node (order_lookup b)"
    by (simp add: b'_def f2 b1_def)
  have pl: "order_pool b' = pl'"
    by (simp add: b'_def f2 b1_def)
  have q: "queue_at b' buy p =
        (if buy = is_buy ord \<and> p = price ord then queue_at b buy p @ [node]
         else queue_at b buy p)" for buy p
    by (simp only: fr' q2 fr1)
  have t: "total_at b' buy p =
        (if buy = is_buy ord \<and> p = price ord then total_at b buy p + quantity ord
         else total_at b buy p)" for buy p
    by (simp only: fr' t2 fr1)
  have srt: "sorted_sides b'" using srt2 by (simp add: fr')
  have ne: "levels_nonempty b'" using ne2 ne0 by (simp add: fr' fr1)
  have ms: "mset (book_nodes b') = add_mset node (mset (book_nodes b))"
    using ms2 by (simp add: fr' fr1)
  have "pool_ok b' = pool_ok b1"
    by (rule pool_ok_frame) (simp_all add: b'_def f2)
  then have pool': "pool_ok b'"
    using cf(3) by (simp add: b1_def)
  have binv: "book_inv b'"
    using inv fresh_id cf(1) h lk q t srt ne ms pool' by (rule inv_after_add)
  have nf: "node = fst (construct ord (order_pool b, nodes b))"
    and pf: "order_pool b' = fst (snd (construct ord (order_pool b, nodes b)))"
    using c pl by simp_all
  show ?thesis
    by (intro exI [of _ b'] exI [of _ node] conjI allI; (rule eq cf(1) nf pf h lk q t binv))
qed

lemma index_okD:
  "index_ok b \<Longrightarrow> fmlookup (order_lookup b) oid = Some n \<Longrightarrow>
   \<exists>nd. nodes b n = Some nd \<and> order_id (order nd) = oid \<and>
        n \<in> set (queue_at b (is_buy (order nd)) (price (order nd)))"
  unfolding index_ok_def by blast

lemma heap_okD:
  "heap_ok b \<Longrightarrow> nodes b n = Some nd \<Longrightarrow> fmlookup (order_lookup b) (order_id (order nd)) = Some n"
  unfolding heap_ok_def by blast

lemma queues_okD:
  assumes "queues_ok b"
  shows "distinct (queue_at b buy p)" "total_at b buy p = queue_sum (nodes b) (queue_at b buy p)"
  using assms by (simp_all add: queues_ok_def)

lemma queue_unique:
  assumes "queues_ok b" "nodes b n = Some nd" "n \<in> set (queue_at b buy p)"
  shows "buy = is_buy (order nd) \<and> p = price (order nd)"
  using queue_node_live [OF assms(1,3)] assms(2) by auto

lemma inv_after_cancel:
  assumes inv: "book_inv b"
    and lk: "fmlookup (order_lookup b) oid = Some node"
    and nd: "nodes b node = Some nd"
    and h': "nodes b' = (nodes b)(node := None)"
    and lk': "order_lookup b' = fmdrop oid (order_lookup b)"
    and pl': "order_pool b' = order_pool b"
    and q': "\<And>buy p. queue_at b' buy p =
        (if buy = is_buy (order nd) \<and> p = price (order nd) then remove1 node (queue_at b buy p)
         else queue_at b buy p)"
    and t': "\<And>buy p. total_at b' buy p =
        (if buy = is_buy (order nd) \<and> p = price (order nd)
         then total_at b buy p - quantity (order nd) else total_at b buy p)"
    and srt: "sorted_sides b'" and ne: "levels_nonempty b'"
    and ms: "add_mset node (mset (book_nodes b')) = mset (book_nodes b)"
  shows "book_inv b'"
proof -
  from inv have qok: "queues_ok b" and iok: "index_ok b" and hok: "heap_ok b"
    and dist: "distinct (book_nodes b)" and cnt: "get_order_count b = length (book_nodes b)"
    and srt0: "sorted_sides b" and pool: "pool_ok b"
    by (simp_all add: book_inv_def)
  define buy0 where "buy0 = is_buy (order nd)"
  define p0 where "p0 = price (order nd)"
  have qa: "queue_at b' buy0 p0 = remove1 node (queue_at b buy0 p0)"
    by (simp add: q' buy0_def p0_def)
  have qb: "queue_at b' buy p = queue_at b buy p" if "\<not> (buy = buy0 \<and> p = p0)" for buy p
    using that q' [of buy p] by (auto simp: buy0_def p0_def)
  have ta: "total_at b' buy0 p0 = total_at b buy0 p0 - quantity (order nd)"
    by (simp add: t' buy0_def p0_def)
  have tb: "total_at b' buy p = total_at b buy p" if "\<not> (buy = buy0 \<and> p = p0)" for buy p
    using that t' [of buy p] by (auto simp: buy0_def p0_def)
  have uniq: "buy = buy0 \<and> p = p0" if "node \<in> set (queue_at b buy p)" for buy p
    using queue_unique [OF qok nd that] by (simp add: buy0_def p0_def)
  have mem0: "node \<in> set (queue_at b buy0 p0)"
    using index_okD [OF iok lk] nd by (auto simp: buy0_def p0_def)
  have oid: "order_id (order nd) = oid"
    using index_okD [OF iok lk] nd by auto
  have gone: "node \<notin> set (queue_at b' buy p)" for buy p
  proof (cases "buy = buy0 \<and> p = p0")
    case True
    then show ?thesis using qa queues_okD(1) [OF qok, of buy0 p0] by simp
  next
    case False
    then show ?thesis using uniq [of buy p] by (auto simp: qb)
  qed
  have sub: "set (queue_at b' buy p) \<subseteq> set (queue_at b buy p)" for buy p
  proof (cases "buy = buy0 \<and> p = p0")
    case True
    then show ?thesis using qa set_remove1_subset [of node "queue_at b buy0 p0"] by auto
  next
    case False
    then show ?thesis by (simp add: qb)
  qed
  have keep: "n \<in> set (queue_at b' buy p)" if "n \<in> set (queue_at b buy p)" "n \<noteq> node" for n buy p
  proof (cases "buy = buy0 \<and> p = p0")
    case True
    then show ?thesis using qa that by auto
  next
    case False
    then show ?thesis using that by (simp add: qb)
  qed
  have same: "nodes b' n = nodes b n" if "n \<noteq> node" for n
    using that by (simp add: h')
  have sum: "queue_sum (nodes b') (queue_at b' buy p) = queue_sum (nodes b) (queue_at b' buy p)"
    for buy p
  proof (rule queue_sum_cong)
    fix n assume "n \<in> set (queue_at b' buy p)"
    then have "n \<noteq> node" using gone [of buy p] by auto
    then show "nodes b' n = nodes b n" by (rule same)
  qed
  have nqn: "node_quantity (nodes b) node = quantity (order nd)"
    by (simp add: nd node_quantity_def)
  have "queues_ok b'"
    unfolding queues_ok_def
  proof (intro allI conjI ballI)
    fix buy p
    show "distinct (queue_at b' buy p)"
    proof (cases "buy = buy0 \<and> p = p0")
      case True
      then show ?thesis using qa queues_okD(1) [OF qok, of buy0 p0] by simp
    next
      case False
      then show ?thesis using queues_okD(1) [OF qok, of buy p] by (simp add: qb)
    qed
    show "total_at b' buy p = queue_sum (nodes b') (queue_at b' buy p)"
    proof (cases "buy = buy0 \<and> p = p0")
      case True
      have "total_at b' buy0 p0 = queue_sum (nodes b) (queue_at b buy0 p0) - quantity (order nd)"
        using queues_okD(2) [OF qok, of buy0 p0] by (simp add: ta)
      also have "\<dots> = queue_sum (nodes b) (queue_at b' buy0 p0)"
        using queue_sum_remove1 [OF mem0, of "nodes b"] by (simp add: qa nqn)
      finally show ?thesis using True sum [of buy0 p0] by simp
    next
      case False
      then show ?thesis
        using queues_okD(2) [OF qok, of buy p] sum [of buy p] by (simp add: qb tb)
    qed
  next
    fix buy p n
    assume n: "n \<in> set (queue_at b' buy p)"
    then have "n \<noteq> node" using gone [of buy p] by auto
    moreover have "n \<in> set (queue_at b buy p)" using n sub by blast
    ultimately show "\<exists>nd. nodes b' n = Some nd \<and> is_buy (order nd) = buy \<and> price (order nd) = p"
      using queue_node_live [OF qok, of n buy p] same [of n] by simp
  qed
  moreover have "index_ok b'"
    unfolding index_ok_def
  proof (intro allI impI)
    fix oid' n
    assume l: "fmlookup (order_lookup b') oid' = Some n"
    then have ne_oid: "oid' \<noteq> oid" and l0: "fmlookup (order_lookup b) oid' = Some n"
      by (auto simp: lk' split: if_splits)
    from index_okD [OF iok l0] obtain nd' where nd': "nodes b n = Some nd'"
      "order_id (order nd') = oid'" "n \<in> set (queue_at b (is_buy (order nd')) (price (order nd')))"
      by blast
    have "n \<noteq> node" using nd'(1,2) nd oid ne_oid by auto
    then have "nodes b' n = Some nd'" using nd'(1) by (simp add: same)
    moreover have "n \<in> set (queue_at b' (is_buy (order nd')) (price (order nd')))"
      using nd'(3) \<open>n \<noteq> node\<close> by (rule keep)
    ultimately show "\<exists>nd. nodes b' n = Some nd \<and> order_id (order nd) = oid' \<and>
             n \<in> set (queue_at b' (is_buy (order nd)) (price (order nd)))"
      using nd'(2) by blast
  qed
  moreover have "heap_ok b'"
    unfolding heap_ok_def
  proof (intro allI impI)
    fix n nd'
    assume n: "nodes b' n = Some nd'"
    then have nn: "n \<noteq> node" by (auto simp: h')
    with n have n0: "nodes b n = Some nd'" by (simp add: h')
    from heap_okD [OF hok n0] have l: "fmlookup (order_lookup b) (order_id (order nd')) = Some n" .
    with lk nn have "order_id (order nd') \<noteq> oid" by auto
    with l show "fmlookup (order_lookup b') (order_id (order nd')) = Some n"
      by (simp add: lk')
  qed
  moreover have "pool_ok b'"
    using pool by (auto simp: pool_ok_def pl' h' split: if_splits)
  moreover have ms': "mset (node # book_nodes b') = mset (book_nodes b)"
    using ms by simp
  have "distinct (book_nodes b')"
    using mset_eq_imp_distinct_iff [OF ms'] dist by simp
  moreover have "get_order_count b' = length (book_nodes b')"
  proof -
    have "oid |\<in>| fmdom (order_lookup b)"
      using lk by (rule fmdomI)
    then have "Suc (fcard (fmdom (order_lookup b) |-| {|oid|})) = fcard (fmdom (order_lookup b))"
      by (rule fcard_Suc_fminus1)
    then have "Suc (get_order_count b') = get_order_count b"
      by (simp only: get_order_count_def lk' fmdom_drop)
    moreover have "Suc (length (book_nodes b')) = length (book_nodes b)"
      using mset_eq_length [OF ms'] by simp
    ultimately show ?thesis using cnt by simp
  qed
  ultimately show ?thesis
    using srt ne by (simp add: book_inv_def)
qed

lemma cancel_order_effect:
  assumes inv: "book_inv b"
    and lk: "fmlookup (order_lookup b) oid = Some node"
  shows "\<exists>b' nd. cancel_order oid b = Some (True, b') \<and> nodes b node = Some nd \<and>
     order_id (order nd) = oid \<and>
     node \<in> set (queue_at b (is_buy (order nd)) (price (order nd))) \<and>
     nodes b' = (nodes b)(node := None) \<and>
     order_lookup b' = fmdrop oid (order_lookup b) \<and>
     order_pool b' = order_pool b \<and>
     (\<forall>buy p. queue_at b' buy p =
        (if buy = is_buy (order nd) \<and> p = price (order nd) then remove1 node (queue_at b buy p)
         else queue_at b buy p)) \<and>
     (\<forall>buy p. total_at b' buy p =
        (if buy = is_buy (order nd) \<and> p = price (order nd)
         then total_at b buy p - quantity (order nd) else total_at b buy p)) \<and>
     book_inv b'"
proof -
  from inv have qok: "queues_ok b" and iok: "index_ok b"
    and srt0: "sorted_sides b" and ne0: "levels_nonempty b"
    by (simp_all add: book_inv_def)
  from index_okD [OF iok lk] obtain nd where nd: "nodes b node = Some nd"
    and oid: "order_id (order nd) = oid"
    and mem: "node \<in> set (queue_at b (is_buy (order nd)) (price (order nd)))"
    by blast
  from remove_from_side_effect [OF nd mem srt0 ne0 queues_okD(2) [OF qok]] obtain b1 where
    r1: "remove_from_side node b = Some b1" and
    f1: "nodes b1 = nodes b" "order_lookup b1 = order_lookup b" "order_pool b1 = order_pool b" and
    q1: "\<And>buy p. queue_at b1 buy p =
        (if buy = is_buy (order nd) \<and> p = price (order nd) then remove1 node (queue_at b buy p)
         else queue_at b buy p)" and
    t1: "\<And>buy p. total_at b1 buy p =
        (if buy = is_buy (order nd) \<and> p = price (order nd)
         then total_at b buy p - quantity (order nd) else total_at b buy p)" and
    srt1: "sorted_sides b1" and ne1: "levels_nonempty b1" and
    ms1: "add_mset node (mset (book_nodes b1)) = mset (book_nodes b)"
    by auto
  define b' where "b' = b1\<lparr>order_lookup := fmdrop oid (order_lookup b1),
                            order_pool := order_pool b1, nodes := (nodes b1)(node := None)\<rparr>"
  have eq: "cancel_order oid b = Some (True, b')"
    using lk r1 by (simp add: cancel_order_def destroy_def b'_def)
  have sides': "bids b' = bids b1" "asks b' = asks b1"
    by (simp_all add: b'_def)
  note fr' = sides_frame [OF sides']
  have h: "nodes b' = (nodes b)(node := None)"
    and l: "order_lookup b' = fmdrop oid (order_lookup b)"
    and pl: "order_pool b' = order_pool b"
    by (simp_all add: b'_def f1)
  have q: "queue_at b' buy p =
        (if buy = is_buy (order nd) \<and> p = price (order nd) then remove1 node (queue_at b buy p)
         else queue_at b buy p)" for buy p
    by (simp only: fr' q1)
  have t: "total_at b' buy p =
        (if buy = is_buy (order nd) \<and> p = price (order nd)
         then total_at b buy p - quantity (order nd) else total_at b buy p)" for buy p
    by (simp only: fr' t1)
  have srt: "sorted_sides b'" using srt1 by (simp add: fr')
  have ne: "levels_nonempty b'" using ne1 by (simp add: fr')
  have ms: "add_mset node (mset (book_nodes b')) = mset (book_nodes b)"
    using ms1 by (simp add: fr')
  have binv: "book_inv b'"
    using inv lk nd h l pl q t srt ne ms by (rule inv_after_cancel)
  show ?thesis
    by (intro exI [of _ b'] exI [of _ nd] conjI allI; (rule eq nd oid mem h l pl q t binv))
qed

lemma fmupd_fmdrop_same:
  "fmlookup m k = Some v \<Longrightarrow> fmupd k v (fmdrop k m) = m"
  by (rule fmap_ext) auto

lemma OrderNode_update_eq: "n\<lparr>order := x\<rparr> = \<lparr>order = x\<rparr>"
  by simp

lemma pool_ok_overwrite:
  assumes "pool_ok b" "nodes b node \<noteq> None" "order_pool b' = order_pool b"
    "nodes b' = (nodes b)(node \<mapsto> x)"
  shows "pool_ok b'"
  using assms by (auto simp: pool_ok_def split: if_splits)

lemma inv_after_amend_qty:
  assumes inv: "book_inv b"
    and lk: "fmlookup (order_lookup b) oid = Some node"
    and nd: "nodes b node = Some nd"
    and h': "nodes b' = (nodes b)(node \<mapsto> \<lparr>order = (order nd)\<lparr>quantity := nq\<rparr>\<rparr>)"
    and lk': "order_lookup b' = order_lookup b"
    and pl': "order_pool b' = order_pool b"
    and q': "\<And>buy p. queue_at b' buy p = queue_at b buy p"
    and t': "\<And>buy p. total_at b' buy p =
        (if buy = is_buy (order nd) \<and> p = price (order nd)
         then total_at b buy p - quantity (order nd) + nq else total_at b buy p)"
    and srt: "sorted_sides b'" and ne: "levels_nonempty b'"
    and ms: "mset (book_nodes b') = mset (book_nodes b)"
  shows "book_inv b'"
proof -
  from inv have qok: "queues_ok b" and iok: "index_ok b" and hok: "heap_ok b"
    and dist: "distinct (book_nodes b)" and cnt: "get_order_count b = length (book_nodes b)"
    and pool: "pool_ok b"
    by (simp_all add: book_inv_def)
  define buy0 where "buy0 = is_buy (order nd)"
  define p0 where "p0 = price (order nd)"
  define nd' where "nd' = \<lparr>order = (order nd)\<lparr>quantity := nq\<rparr>\<rparr>"
  have nd'_f: "is_buy (order nd') = buy0" "price (order nd') = p0"
    "order_id (order nd') = order_id (order nd)" "quantity (order nd') = nq"
    by (simp_all add: nd'_def buy0_def p0_def)
  have hn: "nodes b' = (nodes b)(node \<mapsto> nd')"
    by (simp add: h' nd'_def)
  have ta: "total_at b' buy0 p0 = total_at b buy0 p0 - quantity (order nd) + nq"
    by (simp add: t' buy0_def p0_def)
  have tb: "total_at b' buy p = total_at b buy p" if "\<not> (buy = buy0 \<and> p = p0)" for buy p
    using that t' [of buy p] by (auto simp: buy0_def p0_def)
  have uniq: "buy = buy0 \<and> p = p0" if "node \<in> set (queue_at b buy p)" for buy p
    using queue_unique [OF qok nd that] by (simp add: buy0_def p0_def)
  have mem0: "node \<in> set (queue_at b buy0 p0)"
    using index_okD [OF iok lk] nd by (auto simp: buy0_def p0_def)
  have oid: "order_id (order nd) = oid"
    using index_okD [OF iok lk] nd by auto
  have same: "nodes b' n = nodes b n" if "n \<noteq> node" for n
    using that by (simp add: hn)
  have nqn: "node_quantity (nodes b) node = quantity (order nd)"
    by (simp add: nd node_quantity_def)
  have "queues_ok b'"
    unfolding queues_ok_def
  proof (intro allI conjI ballI)
    fix buy p
    show "distinct (queue_at b' buy p)"
      using queues_okD(1) [OF qok, of buy p] by (simp add: q')
    show "total_at b' buy p = queue_sum (nodes b') (queue_at b' buy p)"
    proof (cases "buy = buy0 \<and> p = p0")
      case True
      have "queue_sum (nodes b') (queue_at b buy0 p0)
          = queue_sum (nodes b) (queue_at b buy0 p0) - node_quantity (nodes b) node + quantity (order nd')"
        unfolding hn using queues_okD(1) [OF qok, of buy0 p0] mem0 by (rule queue_sum_update)
      then show ?thesis
        using True queues_okD(2) [OF qok, of buy0 p0] by (simp add: q' ta nqn nd'_f)
    next
      case False
      then have "node \<notin> set (queue_at b buy p)" using uniq [of buy p] by blast
      then have "queue_sum (nodes b') (queue_at b buy p) = queue_sum (nodes b) (queue_at b buy p)"
        by (intro queue_sum_cong same) auto
      then show ?thesis
        using False queues_okD(2) [OF qok, of buy p] by (simp add: q' tb)
    qed
  next
    fix buy p n
    assume "n \<in> set (queue_at b' buy p)"
    then have n: "n \<in> set (queue_at b buy p)" by (simp add: q')
    show "\<exists>nd. nodes b' n = Some nd \<and> is_buy (order nd) = buy \<and> price (order nd) = p"
    proof (cases "n = node")
      case True
      then have "buy = buy0 \<and> p = p0" using n uniq by blast
      then show ?thesis using True by (simp add: hn nd'_f)
    next
      case False
      then show ?thesis
        using queue_node_live [OF qok n] same [of n] by simp
    qed
  qed
  moreover have "index_ok b'"
    unfolding index_ok_def
  proof (intro allI impI)
    fix oid' n
    assume "fmlookup (order_lookup b') oid' = Some n"
    then have l0: "fmlookup (order_lookup b) oid' = Some n" by (simp add: lk')
    from index_okD [OF iok l0] obtain x where x: "nodes b n = Some x"
      "order_id (order x) = oid'" "n \<in> set (queue_at b (is_buy (order x)) (price (order x)))"
      by blast
    show "\<exists>nd. nodes b' n = Some nd \<and> order_id (order nd) = oid' \<and>
             n \<in> set (queue_at b' (is_buy (order nd)) (price (order nd)))"
    proof (cases "n = node")
      case True
      then have "x = nd" using x(1) nd by simp
      then show ?thesis using True x(2) mem0 by (simp add: hn nd'_f q')
    next
      case False
      then show ?thesis using x same [of n] by (simp add: q')
    qed
  qed
  moreover have "heap_ok b'"
    unfolding heap_ok_def
  proof (intro allI impI)
    fix n x
    assume n: "nodes b' n = Some x"
    show "fmlookup (order_lookup b') (order_id (order x)) = Some n"
    proof (cases "n = node")
      case True
      then have "x = nd'" using n by (simp add: hn)
      then show ?thesis using True lk oid by (simp add: lk' nd'_f)
    next
      case False
      then have "nodes b n = Some x" using n by (simp add: hn)
      from heap_okD [OF hok this] show ?thesis by (simp add: lk')
    qed
  qed
  moreover have "pool_ok b'"
    using pool _ pl' hn by (rule pool_ok_overwrite) (simp add: nd)
  moreover have "distinct (book_nodes b')"
    using mset_eq_imp_distinct_iff [OF ms] dist by simp
  moreover have "get_order_count b' = length (book_nodes b')"
    using cnt mset_eq_length [OF ms] by (simp add: get_order_count_def lk')
  ultimately show ?thesis
    using srt ne by (simp add: book_inv_def)
qed

lemma amend_order_price_eq:
  assumes "fmlookup (order_lookup b) oid = Some node" "nodes b node = Some nd"
    and "price (order nd) \<noteq> np"
    and "remove_from_side node b = Some b1"
    and "add_to_side node
           (b1\<lparr>nodes := (nodes b1)(node \<mapsto> nd\<lparr>order := (order nd)\<lparr>price := np, quantity := nq\<rparr>\<rparr>)\<rparr>)
         = Some b3"
  shows "amend_order oid np nq b = Some (True, b3)"
  using assms by (simp add: amend_order_def)

lemma amend_order_qty_eq:
  assumes "fmlookup (order_lookup b) oid = Some node" "nodes b node = Some nd"
    and "price (order nd) = np" and "quantity (order nd) \<noteq> nq"
    and "side_find (price (order nd)) (side_of (is_buy (order nd)) b) = Some q"
  shows "amend_order oid np nq b =
     Some (True, set_side (is_buy (order nd))
        (side_put (cmp_of (is_buy (order nd))) (price (order nd))
           (q\<lparr>total_quantity := total_quantity q - quantity (order nd) + nq\<rparr>)
           (side_of (is_buy (order nd)) b))
        (b\<lparr>nodes := (nodes b)(node \<mapsto> nd\<lparr>order := (order nd)\<lparr>quantity := nq\<rparr>\<rparr>)\<rparr>))"
  using assms
  by (cases "is_buy (order nd)")
     (simp_all add: amend_order_def level_update_quantity_def set_side_def side_of_def cmp_of_def)

lemma amend_order_noop_eq:
  assumes "fmlookup (order_lookup b) oid = Some node" "nodes b node = Some nd"
    and "price (order nd) = np" and "quantity (order nd) = nq"
  shows "amend_order oid np nq b = Some (True, b)"
  using assms by (simp add: amend_order_def)

lemma amend_qty_effect:
  assumes inv: "book_inv b"
    and lk: "fmlookup (order_lookup b) oid = Some node"
    and nd: "nodes b node = Some nd"
    and same_price: "price (order nd) = np"
  shows "\<exists>b'. amend_order oid np nq b = Some (True, b') \<and>
     nodes b' = (nodes b)(node \<mapsto> \<lparr>order = (order nd)\<lparr>quantity := nq\<rparr>\<rparr>) \<and>
     order_lookup b' = order_lookup b \<and> order_pool b' = order_pool b \<and>
     (\<forall>buy p. queue_at b' buy p = queue_at b buy p) \<and>
     (\<forall>buy p. total_at b' buy p =
        (if buy = is_buy (order nd) \<and> p = price (order nd)
         then total_at b buy p - quantity (order nd) + nq else total_at b buy p)) \<and>
     book_inv b'"
proof (cases "quantity (order nd) = nq")
  case True
  have eq: "amend_order oid np nq b = Some (True, b)"
    using lk nd same_price True by (rule amend_order_noop_eq)
  have "(order nd)\<lparr>quantity := nq\<rparr> = order nd"
    using True by simp
  then have h: "nodes b = (nodes b)(node \<mapsto> \<lparr>order = (order nd)\<lparr>quantity := nq\<rparr>\<rparr>)"
    using nd by (simp add: fun_upd_idem)
  have t: "total_at b buy p =
        (if buy = is_buy (order nd) \<and> p = price (order nd)
         then total_at b buy p - quantity (order nd) + nq else total_at b buy p)" for buy p
    using True by simp
  show ?thesis
    by (intro exI [of _ b] conjI allI; (rule eq h t inv refl))
next
  case False
  from inv have qok: "queues_ok b" and iok: "index_ok b"
    and srt0: "sorted_sides b" and ne0: "levels_nonempty b"
    by (simp_all add: book_inv_def)
  define buy0 where "buy0 = is_buy (order nd)"
  define p0 where "p0 = price (order nd)"
  have mem: "node \<in> set (queue_at b buy0 p0)"
    using index_okD [OF iok lk] nd by (auto simp: buy0_def p0_def)
  then obtain q where q: "side_find p0 (side_of buy0 b) = Some q"
    by (cases "side_find p0 (side_of buy0 b)") (auto simp: queue_at_def)
  define lvl where "lvl = q\<lparr>total_quantity := total_quantity q - quantity (order nd) + nq\<rparr>"
  define b0 where "b0 = b\<lparr>nodes := (nodes b)(node \<mapsto> nd\<lparr>order := (order nd)\<lparr>quantity := nq\<rparr>\<rparr>)\<rparr>"
  define b' where "b' = set_side buy0 (side_put (cmp_of buy0) p0 lvl (side_of buy0 b)) b0"
  have eq: "amend_order oid np nq b = Some (True, b')"
    using amend_order_qty_eq [OF lk nd same_price False q [unfolded buy0_def p0_def]]
    by (simp add: b'_def b0_def lvl_def buy0_def p0_def)
  have sides0: "bids b0 = bids b" "asks b0 = asks b"
    by (simp_all add: b0_def)
  note fr0 = sides_frame [OF sides0]
  have so: "side_of buy b0 = side_of buy b" for buy
    by (simp add: side_of_def sides0)
  have s0: "sorted_wrt (cmp_of buy0) (map fst (side_of buy0 b))"
    using srt0 by (simp add: sorted_sides_iff)
  have find: "side_find p (side_of buy b') =
      (if buy = buy0 \<and> p = p0 then Some lvl else side_find p (side_of buy b))" for buy p
    by (simp add: b'_def side_of_set_side side_find_put ord_cmp_cmp_of so)
  have h: "nodes b' = (nodes b)(node \<mapsto> \<lparr>order = (order nd)\<lparr>quantity := nq\<rparr>\<rparr>)"
    and l: "order_lookup b' = order_lookup b" and pl: "order_pool b' = order_pool b"
    by (simp_all add: b'_def set_side_fields b0_def OrderNode_update_eq)
  have qq: "queue_at b' buy p = queue_at b buy p" for buy p
    using q by (auto simp: queue_at_def find lvl_def)
  have t: "total_at b' buy p =
        (if buy = is_buy (order nd) \<and> p = price (order nd)
         then total_at b buy p - quantity (order nd) + nq else total_at b buy p)" for buy p
    using q by (auto simp: total_at_def find lvl_def buy0_def p0_def)
  have srt: "sorted_sides b'"
    using srt0
    by (simp add: sorted_sides_iff b'_def side_of_set_side sorted_put ord_cmp_cmp_of so)
  have ne: "levels_nonempty b'"
    using ne0 q by (auto simp: levels_nonempty_def find lvl_def split: if_splits)
  have goc: "side_get_or_create p0 (side_of buy0 b) = q"
    using q by (simp add: side_get_or_create_def)
  have "mset (side_nodes (side_put (cmp_of buy0) p0 lvl (side_of buy0 b))) + mset (orders q)
      = mset (side_nodes (side_of buy0 b)) + mset (orders q)"
    using side_nodes_put [OF ord_cmp_cmp_of s0, of p0 lvl] by (simp add: goc lvl_def)
  then have sn: "mset (side_nodes (side_put (cmp_of buy0) p0 lvl (side_of buy0 b)))
      = mset (side_nodes (side_of buy0 b))"
    by (simp only: add_right_cancel)
  have "mset (book_nodes b') + mset (side_nodes (side_of buy0 b0))
      = mset (book_nodes b0) + mset (side_nodes (side_put (cmp_of buy0) p0 lvl (side_of buy0 b)))"
    unfolding b'_def by (rule mset_book_nodes_set_side)
  then have ms: "mset (book_nodes b') = mset (book_nodes b)"
    by (simp only: sn so fr0 add_right_cancel)
  have binv: "book_inv b'"
    using inv lk nd h l pl qq t srt ne ms by (rule inv_after_amend_qty)
  show ?thesis
    by (intro exI [of _ b'] conjI allI; (rule eq h l pl qq t binv))
qed

lemma amend_price_effect:
  assumes inv: "book_inv b"
    and lk: "fmlookup (order_lookup b) oid = Some node"
    and nd: "nodes b node = Some nd"
    and ch: "price (order nd) \<noteq> np"
  shows "\<exists>b'. amend_order oid np nq b = Some (True, b') \<and>
     nodes b' = (nodes b)(node \<mapsto> \<lparr>order = (order nd)\<lparr>price := np, quantity := nq\<rparr>\<rparr>) \<and>
     order_lookup b' = order_lookup b \<and> order_pool b' = order_pool b \<and>
     (\<forall>buy p. queue_at b' buy p =
        (if buy = is_buy (order nd) \<and> p = np then queue_at b buy p @ [node]
         else if buy = is_buy (order nd) \<and> p = price (order nd)
              then remove1 node (queue_at b buy p)
         else queue_at b buy p)) \<and>
     (\<forall>buy p. total_at b' buy p =
        (if buy = is_buy (order nd) \<and> p = np then total_at b buy p + nq
         else if buy = is_buy (order nd) \<and> p = price (order nd)
              then total_at b buy p - quantity (order nd)
         else total_at b buy p)) \<and>
     book_inv b'"
proof -
  from inv have qok: "queues_ok b" and iok: "index_ok b"
    and srt0: "sorted_sides b" and ne0: "levels_nonempty b" and pool: "pool_ok b"
    by (simp_all add: book_inv_def)
  define ord' where "ord' = (order nd)\<lparr>price := np, quantity := nq\<rparr>"
  have ord'_f: "is_buy ord' = is_buy (order nd)" "price ord' = np" "quantity ord' = nq"
    "order_id ord' = order_id (order nd)"
    by (simp_all add: ord'_def)
  have oid: "order_id (order nd) = oid"
    and mem: "node \<in> set (queue_at b (is_buy (order nd)) (price (order nd)))"
    using index_okD [OF iok lk] nd by auto
  from remove_from_side_effect [OF nd mem srt0 ne0 queues_okD(2) [OF qok]] obtain b1 where
    r1: "remove_from_side node b = Some b1" and
    f1: "nodes b1 = nodes b" "order_lookup b1 = order_lookup b" "order_pool b1 = order_pool b" and
    q1: "\<And>buy p. queue_at b1 buy p =
        (if buy = is_buy (order nd) \<and> p = price (order nd) then remove1 node (queue_at b buy p)
         else queue_at b buy p)" and
    t1: "\<And>buy p. total_at b1 buy p =
        (if buy = is_buy (order nd) \<and> p = price (order nd)
         then total_at b buy p - quantity (order nd) else total_at b buy p)" and
    srt1: "sorted_sides b1" and ne1: "levels_nonempty b1" and
    ms1: "add_mset node (mset (book_nodes b1)) = mset (book_nodes b)"
    by auto
  define b2 where "b2 = b1\<lparr>nodes := (nodes b1)(node \<mapsto> nd\<lparr>order := ord'\<rparr>)\<rparr>"
  have sides2: "bids b2 = bids b1" "asks b2 = asks b1"
    by (simp_all add: b2_def)
  note fr2 = sides_frame [OF sides2]
  have n2: "nodes b2 node = Some \<lparr>order = ord'\<rparr>"
    by (simp add: b2_def OrderNode_update_eq)
  have srt2: "sorted_sides b2" using srt1 by (simp add: fr2)
  from add_to_side_effect [OF n2 srt2] obtain b3 where
    a3: "add_to_side node b2 = Some b3" and
    f3: "nodes b3 = nodes b2" "order_lookup b3 = order_lookup b2" "order_pool b3 = order_pool b2" and
    q3: "\<And>buy p. queue_at b3 buy p =
        (if buy = is_buy ord' \<and> p = price ord' then queue_at b2 buy p @ [node]
         else queue_at b2 buy p)" and
    t3: "\<And>buy p. total_at b3 buy p =
        (if buy = is_buy ord' \<and> p = price ord' then total_at b2 buy p + quantity ord'
         else total_at b2 buy p)" and
    srt3: "sorted_sides b3" and ne3: "levels_nonempty b2 \<longrightarrow> levels_nonempty b3" and
    ms3: "mset (book_nodes b3) = add_mset node (mset (book_nodes b2))"
    by auto
  have eq: "amend_order oid np nq b = Some (True, b3)"
    using lk nd ch r1 a3 [unfolded b2_def ord'_def] by (rule amend_order_price_eq)
  have h: "nodes b3 = (nodes b)(node \<mapsto> \<lparr>order = ord'\<rparr>)"
    by (simp add: f3 b2_def f1 OrderNode_update_eq)
  have l: "order_lookup b3 = order_lookup b" and pl: "order_pool b3 = order_pool b"
    by (simp_all add: f3 b2_def f1)
  text \<open>The state a cancel would have produced after the removal.\<close>
  define bc where "bc = b1\<lparr>order_lookup := fmdrop oid (order_lookup b),
                            nodes := (nodes b)(node := None)\<rparr>"
  have sidesc: "bids bc = bids b1" "asks bc = asks b1"
    by (simp_all add: bc_def)
  note frc = sides_frame [OF sidesc]
  have invc: "book_inv bc"
  proof (rule inv_after_cancel [OF inv lk nd])
    show "nodes bc = (nodes b)(node := None)" by (simp add: bc_def)
    show "order_lookup bc = fmdrop oid (order_lookup b)" by (simp add: bc_def)
    show "order_pool bc = order_pool b" by (simp add: bc_def f1)
    show "queue_at bc buy p =
        (if buy = is_buy (order nd) \<and> p = price (order nd) then remove1 node (queue_at b buy p)
         else queue_at b buy p)" for buy p
      by (simp only: frc q1)
    show "total_at bc buy p =
        (if buy = is_buy (order nd) \<and> p = price (order nd)
         then total_at b buy p - quantity (order nd) else total_at b buy p)" for buy p
      by (simp only: frc t1)
    show "sorted_sides bc" using srt1 by (simp add: frc)
    show "levels_nonempty bc" using ne1 by (simp add: frc)
    show "add_mset node (mset (book_nodes bc)) = mset (book_nodes b)"
      using ms1 by (simp add: frc)
  qed
  have binv: "book_inv b3"
  proof (rule inv_after_add [OF invc, of ord' node])
    show "fmlookup (order_lookup bc) (order_id ord') = None"
      by (simp add: bc_def ord'_f oid)
    show "nodes bc node = None" by (simp add: bc_def)
    show "nodes b3 = (nodes bc)(node \<mapsto> \<lparr>order = ord'\<rparr>)"
      by (simp add: h bc_def)
    show "order_lookup b3 = fmupd (order_id ord') node (order_lookup bc)"
      using fmupd_fmdrop_same [OF lk] by (simp add: l bc_def ord'_f oid)
    show "queue_at b3 buy p =
        (if buy = is_buy ord' \<and> p = price ord' then queue_at bc buy p @ [node]
         else queue_at bc buy p)" for buy p
      by (simp only: q3 fr2 frc)
    show "total_at b3 buy p =
        (if buy = is_buy ord' \<and> p = price ord' then total_at bc buy p + quantity ord'
         else total_at bc buy p)" for buy p
      by (simp only: t3 fr2 frc)
    show "sorted_sides b3" by (rule srt3)
    show "levels_nonempty b3" using ne3 ne1 by (simp add: fr2)
    show "mset (book_nodes b3) = add_mset node (mset (book_nodes bc))"
      using ms3 by (simp add: fr2 frc)
    show "pool_ok b3"
      using pool _ pl h by (rule pool_ok_overwrite) (simp add: nd)
  qed
  have q: "queue_at b3 buy p =
        (if buy = is_buy (order nd) \<and> p = np then queue_at b buy p @ [node]
         else if buy = is_buy (order nd) \<and> p = price (order nd)
              then remove1 node (queue_at b buy p)
         else queue_at b buy p)" for buy p
    using ch by (auto simp: q3 fr2 q1 ord'_f)
  have t: "total_at b3 buy p =
        (if buy = is_buy (order nd) \<and> p = np then total_at b buy p + nq
         else if buy = is_buy (order nd) \<and> p = price (order nd)
              then total_at b buy p - quantity (order nd)
         else total_at b buy p)" for buy p
    using ch by (auto simp: t3 fr2 t1 ord'_f)
  show ?thesis
    unfolding ord'_def [symmetric]
    by (intro exI [of _ b3] conjI allI; (rule eq h l pl q t binv))
qed

lemma book_inv_new: "book_inv OrderBook_new"
  by (simp add: book_inv_def OrderBook_new_def sorted_sides_def levels_nonempty_def
      queues_ok_def index_ok_def heap_ok_def pool_ok_def book_nodes_def side_nodes_def
      get_order_count_def queue_at_def total_at_def side_of_def queue_sum_def
      MemoryPool_new_def allocate_block_def BlockSize_def)

lemma add_order_duplicate:
  "fmlookup (order_lookup b) (order_id ord) \<noteq> None \<Longrightarrow> add_order ord b = Some b"
  by (simp add: add_order_def)

lemma add_order_inv:
  assumes "book_inv b" "add_order ord b = Some b'"
  shows "book_inv b'"
proof (cases "fmlookup (order_lookup b) (order_id ord) = None")
  case True
  from add_order_effect [OF assms(1) True] assms(2) show ?thesis by auto
next
  case False
  then show ?thesis using assms add_order_duplicate [of b ord] by simp
qed

lemma cancel_order_missing:
  "fmlookup (order_lookup b) oid = None \<Longrightarrow> cancel_order oid b = Some (False, b)"
  by (simp add: cancel_order_def)

lemma amend_order_missing:
  "fmlookup (order_lookup b) oid = None \<Longrightarrow> amend_order oid p q b = Some (False, b)"
  by (simp add: amend_order_def)

lemma cancel_order_inv:
  assumes "book_inv b" "cancel_order oid b = Some (r, b')"
  shows "book_inv b'"
proof (cases "fmlookup (order_lookup b) oid")
  case None
  then show ?thesis using assms cancel_order_missing [of b oid] by simp
next
  case (Some node)
  from cancel_order_effect [OF assms(1) Some] assms(2) show ?thesis by auto
qed

lemma amend_order_effect:
  assumes inv: "book_inv b" and lk: "fmlookup (order_lookup b) oid = Some node"
  shows "\<exists>b'. amend_order oid p q b = Some (True, b') \<and> book_inv b'"
proof -
  from inv have iok: "index_ok b" by (simp add: book_inv_def)
  from index_okD [OF iok lk] obtain nd where nd: "nodes b node = Some nd" by blast
  show ?thesis
  proof (cases "price (order nd) = p")
    case True
    from amend_qty_effect [OF inv lk nd True, of q] show ?thesis by blast
  next
    case False
    from amend_price_effect [OF inv lk nd False, of q] show ?thesis by blast
  qed
qed

lemma amend_order_inv:
  assumes "book_inv b" "amend_order oid p q b = Some (r, b')"
  shows "book_inv b'"
proof (cases "fmlookup (order_lookup b) oid")
  case None
  then show ?thesis using assms amend_order_missing [of b oid p q] by simp
next
  case (Some node)
  from amend_order_effect [OF assms(1) Some, of p q] assms(2) show ?thesis by auto
qed

lemma reachable_inv: "reachable b \<Longrightarrow> book_inv b"
proof (induction rule: reachable.induct)
  case reachable_new
  show ?case by (rule book_inv_new)
next
  case (reachable_add b ord b')
  then show ?case using add_order_inv by blast
next
  case (reachable_cancel b oid r b')
  then show ?case using cancel_order_inv by blast
next
  case (reachable_amend b oid p q r b')
  then show ?case using amend_order_inv by blast
qed

lemma side_ext:
  assumes "ord_cmp cmp"
  shows "sorted_wrt cmp (map fst m) \<Longrightarrow> sorted_wrt cmp (map fst m') \<Longrightarrow>
     (\<And>k. side_find k m = side_find k m') \<Longrightarrow> m = m'"
proof (induction m arbitrary: m')
  case Nil
  show ?case
  proof (cases m')
    case Nil
    then show ?thesis by simp
  next
    case (Cons e ms')
    then show ?thesis using Nil.prems(3) [of "fst e"] by (cases e) (simp add: side_find_Cons)
  qed
next
  case (Cons e ms)
  obtain k v where e: "e = (k, v)" by (cases e)
  show ?case
  proof (cases m')
    case Nil
    then show ?thesis using Cons.prems(3) [of k] e by (simp add: side_find_Cons)
  next
    case (Cons e' ms')
    obtain k' v' where e': "e' = (k', v')" by (cases e')
    have n1: "side_find k ms = None"
      using sorted_head_notin [OF assms] Cons.prems(1) e by blast
    have n2: "side_find k' ms' = None"
      using sorted_head_notin [OF assms] Cons.prems(2) Cons e' by blast
    have kk: "k = k'"
    proof (rule ccontr)
      assume neq: "k \<noteq> k'"
      from Cons.prems(3) [of k] have "side_find k ms' = Some v"
        using neq e e' Cons by (simp add: side_find_Cons)
      then have "k \<in> set (map fst ms')"
        using side_find_None_iff [of k ms'] by auto
      then have c1: "cmp k' k"
        using Cons.prems(2) Cons e' by auto
      from Cons.prems(3) [of k'] have "side_find k' ms = Some v'"
        using neq e e' Cons by (simp add: side_find_Cons)
      then have "k' \<in> set (map fst ms)"
        using side_find_None_iff [of k' ms] by auto
      then have c2: "cmp k k'"
        using Cons.prems(1) e by auto
      from c1 c2 assms show False by (auto simp: ord_cmp_def)
    qed
    have vv: "v = v'"
      using Cons.prems(3) [of k] e e' Cons kk by (simp add: side_find_Cons)
    have "side_find x ms = side_find x ms'" for x
    proof (cases "x = k")
      case True
      then show ?thesis using n1 n2 kk by simp
    next
      case False
      then show ?thesis using Cons.prems(3) [of x] e e' Cons kk by (simp add: side_find_Cons)
    qed
    then have "ms = ms'"
      using Cons.IH [of ms'] Cons.prems(1,2) Cons by simp
    then show ?thesis using e e' Cons kk vv by simp
  qed
qed

lemma side_find_views:
  assumes "levels_nonempty b" "levels_nonempty b'"
    and "\<And>buy p. queue_at b' buy p = queue_at b buy p"
    and "\<And>buy p. total_at b' buy p = total_at b buy p"
  shows "side_find p (side_of buy b') = side_find p (side_of buy b)"
proof (cases "side_find p (side_of buy b)")
  case None
  then have "queue_at b' buy p = []" using assms(3) [of buy p] by (simp add: queue_at_def)
  then show ?thesis using assms(2) None
    by (cases "side_find p (side_of buy b')") (auto simp: queue_at_def levels_nonempty_def)
next
  case (Some q)
  then have ne: "queue_at b buy p \<noteq> []"
    using assms(1) by (auto simp: queue_at_def levels_nonempty_def)
  show ?thesis
  proof (cases "side_find p (side_of buy b')")
    case None
    then show ?thesis using ne assms(3) [of buy p] by (simp add: queue_at_def)
  next
    case (Some q')
    then show ?thesis
      using \<open>side_find p (side_of buy b) = Some q\<close> assms(3) [of buy p] assms(4) [of buy p]
      by (simp add: queue_at_def total_at_def)
  qed
qed

lemma book_ext:
  assumes "sorted_sides b" "sorted_sides b'" "levels_nonempty b" "levels_nonempty b'"
    and "\<And>buy p. queue_at b' buy p = queue_at b buy p"
    and "\<And>buy p. total_at b' buy p = total_at b buy p"
  shows "bids b' = bids b" "asks b' = asks b"
proof -
  have "side_of buy b' = side_of buy b" for buy
  proof (rule side_ext [OF ord_cmp_cmp_of [of buy]])
    show "sorted_wrt (cmp_of buy) (map fst (side_of buy b'))"
      using assms(2) by (simp add: sorted_sides_iff)
    show "sorted_wrt (cmp_of buy) (map fst (side_of buy b))"
      using assms(1) by (simp add: sorted_sides_iff)
    show "side_find k (side_of buy b') = side_find k (side_of buy b)" for k
      using assms(3-6) by (rule side_find_views)
  qed
  from this [of True] this [of False] show "bids b' = bids b" "asks b' = asks b"
    by (simp_all add: side_of_def)
qed

section \<open>The small book is reachable\<close>

lemmas run_defs = add_order_def construct_def add_to_side_def level_add_order_def
  side_get_or_create_def side_find_def PriceLevelQueue_new_def allocate_block_def BlockSize_def
  MemoryPool_new_def OrderBook_new_def Order_new_def order1_def order2_def order3_def Let_def

lemma book1_run: "add_order order1 OrderBook_new = Some book1"
  by (simp add: run_defs book1_def)

lemma book2_run: "add_order order2 book1 = Some book2"
  by (simp add: run_defs book1_def book2_def)

lemma book3_run: "add_order order3 book2 = Some book3"
  by (simp add: run_defs book2_def book3_def)

lemma book3_reachable: "reachable book3"
  using reachable_new book1_run book2_run book3_run by (blast intro: reachable_add)

section \<open>The claims\<close>

text \<open>
  C7. Duplicate add is a silent, atomic no-op: when the id of the order is already in the
  order index, \<^verbatim>\<open>add_order\<close> returns normally and the book it leaves is the book it
  found (order index, both sides with every FIFO and total, pool and nodes), whatever the
  side, price and quantity of the order.
\<close>

theorem duplicate_add_is_noop:
  assumes "order_id ord |\<in>| fmdom (order_lookup b)"
  shows "add_order ord b = Some b"
proof -
  from assms have "fmlookup (order_lookup b) (order_id ord) \<noteq> None"
    by (simp add: fmlookup_dom_iff)
  then show ?thesis by (simp add: add_order_def)
qed

theorem duplicate_add_is_noop_witness:
  "order_id (Order_new 1 False 55 7 9) |\<in>| fmdom (order_lookup book3) \<and>
   add_order (Order_new 1 False 55 7 9) book3 = Some book3"
proof -
  have h: "order_id (Order_new 1 False 55 7 9) |\<in>| fmdom (order_lookup book3)"
    by (simp add: Order_new_def book3_def)
  show ?thesis using h duplicate_add_is_noop [OF h] by simp
qed

text \<open>
  C8. Pool slot reuse. \<^verbatim>\<open>destroy\<close> runs the destructor and leaves the pool as it was:
  no slot goes back to a free pool, and \<^verbatim>\<open>construct\<close> only bump-allocates. After
  constructing a node at slot \<open>(0, 0)\<close> of a new pool and destroying it, the next
  \<^verbatim>\<open>construct\<close> hands out slot \<open>(0, 1)\<close>; slot \<open>(0, 0)\<close> is not handed out again.
\<close>

theorem destroy_does_not_recycle:
  "fst (destroy ptr ph) = fst ph \<and>
   fst (construct order1 (MemoryPool_new, Map.empty)) = (0, 0) \<and>
   fst (construct order2
         (destroy (0, 0) (snd (construct order1 (MemoryPool_new, Map.empty))))) = (0, 1)"
  by (simp add: destroy_def construct_def MemoryPool_new_def allocate_block_def BlockSize_def
      Let_def)

text \<open>
  C6. Existence return convention with atomic failure: in every reachable book,
  \<^verbatim>\<open>cancel_order(id)\<close> and \<^verbatim>\<open>amend_order(id, p, q)\<close> return (no undefined behaviour), the
  value returned is true exactly when the id is in the order index at the call, and when
  it is false the book is unchanged.
\<close>

theorem existence_return_convention:
  assumes "reachable b"
  shows "(\<exists>b'. cancel_order oid b = Some (oid |\<in>| fmdom (order_lookup b), b') \<and>
               (oid |\<notin>| fmdom (order_lookup b) \<longrightarrow> b' = b)) \<and>
         (\<exists>b'. amend_order oid p q b = Some (oid |\<in>| fmdom (order_lookup b), b') \<and>
               (oid |\<notin>| fmdom (order_lookup b) \<longrightarrow> b' = b))"
proof (cases "fmlookup (order_lookup b) oid")
  case None
  then have "oid |\<notin>| fmdom (order_lookup b)" by (simp add: fmdom_notI)
  then show ?thesis
    using cancel_order_missing [OF None] amend_order_missing [OF None] by simp
next
  case (Some node)
  then have d: "oid |\<in>| fmdom (order_lookup b)" by (rule fmdomI)
  have inv: "book_inv b" using assms by (rule reachable_inv)
  from cancel_order_effect [OF inv Some] obtain b1 where "cancel_order oid b = Some (True, b1)"
    by blast
  moreover from amend_order_effect [OF inv Some, of p q] obtain b2 where
    "amend_order oid p q b = Some (True, b2)"
    by blast
  ultimately show ?thesis using d by simp
qed

theorem existence_return_convention_witness:
  "reachable book3 \<and>
   cancel_order 42 book3 = Some (False, book3) \<and> amend_order 42 100 1 book3 = Some (False, book3) \<and>
   (\<exists>b'. cancel_order 2 book3 = Some (True, b')) \<and>
   (\<exists>b'. amend_order 2 100 1 book3 = Some (True, b'))"
proof -
  have a: "(42 :: u64) |\<notin>| fmdom (order_lookup book3)" and b: "(2 :: u64) |\<in>| fmdom (order_lookup book3)"
    by (simp_all add: book3_def)
  show ?thesis
    using existence_return_convention [OF book3_reachable, of 42 100 1]
      existence_return_convention [OF book3_reachable, of 2 100 1] a b book3_reachable
    by auto
qed

lemma level_price_entry: "level_price \<circ> level_entry = fst"
  by (simp add: level_entry_def fun_eq_iff)

lemma sorted_head_best:
  assumes "ord_cmp cmp" "sorted_wrt cmp (map fst m)" "e \<in> set m" "0 < d"
  shows "cmp (fst (hd (take d m))) (fst e) \<or> fst e = fst (hd (take d m))"
  using assms by (cases m; cases d) auto

lemma vector_reserve_Inr:
  assumes "vector_reserve alloc d (m, v) = Inr (m', v')"
  shows "elems v' = elems v" "d \<le> capacity v'" "d \<le> vector_max_size"
  using assms
  by (auto simp: vector_reserve_def split: if_splits option.splits)

lemma snapshot_loop_reserved:
  "length (elems (vs r)) + min (d - c) (length es) \<le> capacity (vs r) \<Longrightarrow>
   snapshot_loop alloc d c es r (m, vs) =
     (None, m, vs(r := (vs r)\<lparr>elems := elems (vs r) @ map level_entry (take (d - c) es)\<rparr>))"
proof (induction es arbitrary: c vs)
  case Nil
  then show ?case by simp
next
  case (Cons e es)
  obtain p level where e: "e = (p, level)" by (cases e)
  show ?case
  proof (cases "c \<ge> d")
    case True
    then show ?thesis by (simp add: e)
  next
    case False
    then have dc: "d - c = Suc (d - (c + 1))" by simp
    have room: "length (elems (vs r)) < capacity (vs r)"
      using Cons.prems False by simp
    define vs' where "vs' = vs(r := (vs r)\<lparr>elems := elems (vs r) @ [level_entry e]\<rparr>)"
    have step: "at_ref r (vector_emplace_back alloc (PriceLevel p (total_quantity level))) (m, vs)
        = Inr (m, vs')"
      using room by (simp add: at_ref_def vector_emplace_back_def vs'_def level_entry_def e)
    have "length (elems (vs' r)) + min (d - (c + 1)) (length es) \<le> capacity (vs' r)"
      using Cons.prems False by (simp add: vs'_def)
    from Cons.IH [where vs = vs' and c = "c + 1", OF this]
    have ih: "snapshot_loop alloc d (c + 1) es r (m, vs') =
       (None, m, vs'(r := (vs' r)\<lparr>elems := elems (vs' r) @ map level_entry (take (d - (c + 1)) es)\<rparr>))" .
    have "snapshot_loop alloc d c (e # es) r (m, vs) = snapshot_loop alloc d (c + 1) es r (m, vs')"
      using False step by (simp add: e)
    also note ih
    also have "vs'(r := (vs' r)\<lparr>elems := elems (vs' r) @ map level_entry (take (d - (c + 1)) es)\<rparr>)
        = vs(r := (vs r)\<lparr>elems := elems (vs r) @ map level_entry (take (d - c) (e # es))\<rparr>)"
      by (simp add: vs'_def dc)
    finally show ?thesis .
  qed
qed

text \<open>
  When the two references are different vectors and both calls of \<^verbatim>\<open>reserve\<close> succeed,
  \<^verbatim>\<open>get_snapshot\<close> returns normally: whatever the vectors held at entry, each then holds
  the entries \<open>(price, total_quantity)\<close> of the first \<open>min d n\<close> levels of its side in
  iteration order, \<open>n\<close> being the number of levels of that side.
\<close>

lemma snapshot_when_reserved:
  assumes "bids_ref \<noteq> asks_ref"
    and "vector_reserve alloc d (m, vector_clear (vs bids_ref)) = Inr (m1, vb)"
    and "vector_reserve alloc d (m1, vector_clear (vs asks_ref)) = Inr (m2, va)"
  shows "get_snapshot alloc d bids_ref asks_ref b (m, vs) =
     (None, m2, vs(bids_ref := vb\<lparr>elems := map level_entry (take d (bids b))\<rparr>,
                   asks_ref := va\<lparr>elems := map level_entry (take d (asks b))\<rparr>))"
proof -
  define vs2 where "vs2 = vs(bids_ref := vector_clear (vs bids_ref),
                              asks_ref := vector_clear (vs asks_ref))"
  define vs3 where "vs3 = vs2(bids_ref := vb)"
  define vs4 where "vs4 = vs3(asks_ref := va)"
  have eb: "elems vb = []" and cb: "d \<le> capacity vb"
    using vector_reserve_Inr [OF assms(2)] by (simp_all add: vector_clear_def)
  have ea: "elems va = []" and ca: "d \<le> capacity va"
    using vector_reserve_Inr [OF assms(3)] by (simp_all add: vector_clear_def)
  have r1: "at_ref bids_ref (vector_reserve alloc d) (m, vs2) = Inr (m1, vs3)"
    using assms(1,2) by (simp add: at_ref_def vs2_def vs3_def)
  have r2: "at_ref asks_ref (vector_reserve alloc d) (m1, vs3) = Inr (m2, vs4)"
    using assms(1,3) by (simp add: at_ref_def vs2_def vs3_def vs4_def)
  define vs5 where "vs5 = vs4(bids_ref := vb\<lparr>elems := map level_entry (take d (bids b))\<rparr>)"
  have "length (elems (vs4 bids_ref)) + min (d - 0) (length (bids b)) \<le> capacity (vs4 bids_ref)"
    using assms(1) eb cb by (simp add: vs4_def vs3_def)
  from snapshot_loop_reserved [where vs = vs4 and r = bids_ref and c = 0 and alloc = alloc
      and m = m2, OF this]
  have l1: "snapshot_loop alloc d 0 (bids b) bids_ref (m2, vs4) = (None, m2, vs5)"
    using assms(1) eb by (simp add: vs5_def vs4_def vs3_def)
  define vs6 where "vs6 = vs5(asks_ref := va\<lparr>elems := map level_entry (take d (asks b))\<rparr>)"
  have "length (elems (vs5 asks_ref)) + min (d - 0) (length (asks b)) \<le> capacity (vs5 asks_ref)"
    using assms(1) ea ca by (simp add: vs5_def vs4_def)
  from snapshot_loop_reserved [where vs = vs5 and r = asks_ref and c = 0 and alloc = alloc
      and m = m2, OF this]
  have l2: "snapshot_loop alloc d 0 (asks b) asks_ref (m2, vs5) = (None, m2, vs6)"
    using assms(1) ea by (simp add: vs6_def vs5_def vs4_def)
  have "get_snapshot alloc d bids_ref asks_ref b (m, vs) = (None, m2, vs6)"
    using assms(1) assms(1) [symmetric] r1 r2 l1 l2
    by (simp add: get_snapshot_def Let_def vs2_def)
  moreover have "vs6 = vs(bids_ref := vb\<lparr>elems := map level_entry (take d (bids b))\<rparr>,
                   asks_ref := va\<lparr>elems := map level_entry (take d (asks b))\<rparr>)"
    using assms(1) by (auto simp: vs6_def vs5_def vs4_def vs3_def vs2_def fun_eq_iff)
  ultimately show ?thesis by simp
qed

text \<open>
  In a book whose sides are ordered, as every reachable book is, these entries are strictly
  descending by price from the highest bid, and strictly ascending from the lowest ask.
\<close>

lemma snapshot_entries_ordered:
  assumes "sorted_sides b"
  shows "length (map level_entry (take d (bids b))) = min d (length (bids b)) \<and>
         length (map level_entry (take d (asks b))) = min d (length (asks b)) \<and>
         sorted_wrt (>) (map level_price (map level_entry (take d (bids b)))) \<and>
         sorted_wrt (<) (map level_price (map level_entry (take d (asks b)))) \<and>
         (\<forall>e \<in> set (bids b). 0 < d \<longrightarrow>
            fst e \<le> level_price (hd (map level_entry (take d (bids b))))) \<and>
         (\<forall>e \<in> set (asks b). 0 < d \<longrightarrow>
            level_price (hd (map level_entry (take d (asks b)))) \<le> fst e)"
proof -
  from assms have sb: "sorted_wrt (>) (map fst (bids b))" and sa: "sorted_wrt (<) (map fst (asks b))"
    by (simp_all add: sorted_sides_def)
  have "sorted_wrt (>) (map fst (take d (bids b)))"
    using sb by (simp add: take_map [symmetric] sorted_wrt_take)
  moreover have "sorted_wrt (<) (map fst (take d (asks b)))"
    using sa by (simp add: take_map [symmetric] sorted_wrt_take)
  moreover have "fst e \<le> level_price (hd (map level_entry (take d (bids b))))"
    if "e \<in> set (bids b)" "0 < d" for e
  proof -
    from that have ne: "take d (bids b) \<noteq> []" by auto
    have "fst (hd (take d (bids b))) > fst e \<or> fst e = fst (hd (take d (bids b)))"
      using sorted_head_best [of "(>)", OF _ sb that] by (simp add: ord_cmp_def)
    then show ?thesis using ne by (auto simp: hd_map level_entry_def)
  qed
  moreover have "level_price (hd (map level_entry (take d (asks b)))) \<le> fst e"
    if "e \<in> set (asks b)" "0 < d" for e
  proof -
    from that have ne: "take d (asks b) \<noteq> []" by auto
    have "fst (hd (take d (asks b))) < fst e \<or> fst e = fst (hd (take d (asks b)))"
      using sorted_head_best [of "(<)", OF _ sa that] by (simp add: ord_cmp_def)
    then show ?thesis using ne by (auto simp: hd_map level_entry_def)
  qed
  ultimately show ?thesis
    by (simp add: level_price_entry min.commute)
qed

text \<open>
  With enough capacity at entry no storage is asked for. With too little,
  \<^verbatim>\<open>bids.reserve(depth)\<close> asks the allocator for \<open>depth\<close> elements, whatever the number of
  levels, and \<^verbatim>\<open>std::bad_alloc\<close> leaves the function with both vectors empty.
\<close>

lemma snapshot_reserve_bad_alloc:
  assumes "d \<le> vector_max_size" and "capacity (vs bids_ref) < d" and "alloc m d = None"
  shows "fst (get_snapshot alloc d bids_ref asks_ref b (m, vs)) = Some bad_alloc \<and>
         elems (snd (snd (get_snapshot alloc d bids_ref asks_ref b (m, vs))) bids_ref) = [] \<and>
         elems (snd (snd (get_snapshot alloc d bids_ref asks_ref b (m, vs))) asks_ref) = []"
  using assms
  by (cases "bids_ref = asks_ref")
     (simp_all add: get_snapshot_def Let_def at_ref_def vector_reserve_def vector_clear_def)

text \<open>
  When both references are the same vector, that vector is cleared once more by
  \<^verbatim>\<open>asks.clear()\<close> before anything is written, and then receives the bid entries followed
  by the ask entries.
\<close>

lemma snapshot_same_vector:
  "get_snapshot (\<lambda>m n. Some m) 5 0 0 book3 ((), \<lambda>r. \<lparr>elems = [PriceLevel 7 7], capacity = 1\<rparr>)
     = (None, (),
        (\<lambda>r. \<lparr>elems = [PriceLevel 7 7], capacity = 1\<rparr>)
          (0 := \<lparr>elems = [PriceLevel 100 30, PriceLevel 101 25], capacity = 5\<rparr>))"
  by (simp add: get_snapshot_def Let_def at_ref_def vector_reserve_def vector_clear_def
      vector_emplace_back_def vector_max_size_def book3_def)

text \<open>
  C5. Snapshot shape and order, for every depth. The two \<^verbatim>\<open>for\<close> statements stop at
  \<open>min d n\<close> entries for every depth \<open>d\<close>, but \<^verbatim>\<open>bids.reserve(depth)\<close> in front of them is
  not bounded by the number of levels. With depth \<^verbatim>\<open>SIZE_MAX\<close>, \<open>2 ^ 64 - 1\<close>, it throws
  \<^verbatim>\<open>std::length_error\<close> on every book, for every allocator and whatever the vectors held:
  the function is left with both vectors empty, where the claim has \<open>min d n\<close> entries in
  each.
\<close>

theorem snapshot_reserve_throws:
  "fst (get_snapshot alloc (2 ^ 64 - 1) bids_ref asks_ref b s) = Some length_error \<and>
   elems (snd (snd (get_snapshot alloc (2 ^ 64 - 1) bids_ref asks_ref b s)) bids_ref) = [] \<and>
   elems (snd (snd (get_snapshot alloc (2 ^ 64 - 1) bids_ref asks_ref b s)) asks_ref) = [] \<and>
   fst (snd (get_snapshot alloc (2 ^ 64 - 1) bids_ref asks_ref b s)) = fst s"
  by (simp add: get_snapshot_def Let_def at_ref_def vector_reserve_def vector_clear_def
      vector_max_size_def)

lemma count_list_distinct: "distinct xs \<Longrightarrow> x \<in> set xs \<Longrightarrow> count_list xs x = 1"
  by (induction xs) auto

lemma entry_find:
  assumes "sorted_sides b" "(p, q) \<in> set (side_of buy b)"
  shows "side_find p (side_of buy b) = Some q"
proof -
  have "distinct (map fst (side_of buy b))"
    using assms(1) by (auto simp: sorted_sides_iff intro: sorted_wrt_distinct [OF ord_cmp_cmp_of])
  then show ?thesis using assms(2) by (simp add: side_find_def)
qed

lemma entry_ok:
  assumes inv: "book_inv b" and e: "e \<in> set (bids b) \<union> set (asks b)"
  shows "total_quantity (snd e) = queue_sum (nodes b) (orders (snd e))" "orders (snd e) \<noteq> []"
proof -
  from inv have qok: "queues_ok b" and srt: "sorted_sides b" and ne: "levels_nonempty b"
    by (simp_all add: book_inv_def)
  have "e \<in> set (side_of True b) \<or> e \<in> set (side_of False b)"
    using e by (simp add: side_of_def)
  then obtain buy where "e \<in> set (side_of buy b)"
    by blast
  then have "(fst e, snd e) \<in> set (side_of buy b)" by simp
  from entry_find [OF srt this] have f: "side_find (fst e) (side_of buy b) = Some (snd e)" .
  then have "queue_at b buy (fst e) = orders (snd e)" "total_at b buy (fst e) = total_quantity (snd e)"
    by (simp_all add: queue_at_def total_at_def)
  then show "total_quantity (snd e) = queue_sum (nodes b) (orders (snd e))"
    using queues_okD(2) [OF qok, of buy "fst e"] by simp
  show "orders (snd e) \<noteq> []"
    using ne f by (auto simp: levels_nonempty_def)
qed

lemma length_book_nodes:
  "length (book_nodes b) = (\<Sum>e\<leftarrow>bids b @ asks b. length (orders (snd e)))"
  by (simp add: book_nodes_def side_nodes_def length_concat comp_def)

lemma wrap_book1_run: "add_order order_max OrderBook_new = Some wrap_book1"
  by (simp add: run_defs order_max_def wrap_book1_def)

lemma wrap_book2_run: "add_order order_two wrap_book1 = Some wrap_book2"
  by (simp add: run_defs order_max_def order_two_def wrap_book1_def wrap_book2_def)

lemma wrap_book2_reachable: "reachable wrap_book2"
  using reachable_new wrap_book1_run wrap_book2_run by (blast intro: reachable_add)

text \<open>
  The sums of quantities are sums of \<^verbatim>\<open>uint64_t\<close> values: the sum of the numbers modulo
  \<open>2 ^ 64\<close>, and that sum itself where it is below \<open>2 ^ 64\<close>.
\<close>

lemma queue_sum_mod: "unat (queue_sum h ns) = queue_sum_nat h ns mod 2 ^ 64"
proof (induction ns)
  case Nil
  then show ?case by (simp add: queue_sum_def queue_sum_nat_def)
next
  case (Cons n ns)
  have "unat (queue_sum h (n # ns)) = (unat (node_quantity h n) + unat (queue_sum h ns)) mod 2 ^ 64"
    by (simp add: queue_sum_Cons unat_word_ariths)
  also have "\<dots> = (unat (node_quantity h n) + queue_sum_nat h ns mod 2 ^ 64) mod 2 ^ 64"
    by (simp only: Cons.IH)
  also have "\<dots> = (unat (node_quantity h n) + queue_sum_nat h ns) mod 2 ^ 64"
    by (rule mod_add_right_eq)
  finally show ?case by (simp add: queue_sum_nat_def)
qed

lemma queue_sum_exact:
  "queue_sum_nat h ns < 2 ^ 64 \<Longrightarrow> unat (queue_sum h ns) = queue_sum_nat h ns"
  by (simp add: queue_sum_mod)

text \<open>
  C1. Cross-index consistency. As stated, part (2) fails: the cached total is kept in a
  \<^verbatim>\<open>uint64_t\<close> and wraps. After adding two buy orders at price 100 with quantities
  \<open>2 ^ 64 - 1\<close> and \<open>2\<close> to a new book, the level holds both nodes, its cached total is 1,
  and the sum of the two quantities is \<open>2 ^ 64 + 1\<close>.
\<close>

theorem cached_total_wraps_counterexample:
  "reachable wrap_book2 \<and>
   bids wrap_book2 = [(100, \<lparr>orders = [(0, 0), (0, 1)], total_quantity = 1\<rparr>)] \<and>
   unat (total_quantity \<lparr>orders = [(0, 0), (0, 1)], total_quantity = 1\<rparr>) = 1 \<and>
   queue_sum_nat (nodes wrap_book2) [(0, 0), (0, 1)] = 18446744073709551617"
  using wrap_book2_reachable
  by (simp add: wrap_book2_def queue_sum_nat_def node_quantity_def order_max_def order_two_def
      Order_new_def)

text \<open>
  C1, amended. In every book reachable from the empty book by \<^verbatim>\<open>add_order\<close>,
  \<^verbatim>\<open>cancel_order\<close> and \<^verbatim>\<open>amend_order\<close>,
  (1) every id of the order index maps to a live node that carries this id, occurs exactly
  once among all the queues of both sides, and is in the queue found on the node's side
  under the node's price; conversely every node in a queue is the node of an indexed id;
  (2) the cached total of every level is the sum of the quantities of its nodes modulo
  \<open>2 ^ 64\<close>, the sum as \<^verbatim>\<open>uint64_t\<close> arithmetic computes it, and it is the sum itself
  whenever that sum is below \<open>2 ^ 64\<close>;
  (3) every level present in a side is non-empty, and \<^verbatim>\<open>get_order_count\<close> is the number
  of nodes over all levels of both sides.
\<close>

theorem cross_index_invariant:
  assumes "reachable b"
  shows "(\<forall>oid n. fmlookup (order_lookup b) oid = Some n \<longrightarrow>
            (\<exists>nd q. nodes b n = Some nd \<and> order_id (order nd) = oid \<and>
                count_list (book_nodes b) n = 1 \<and>
                side_find (price (order nd)) (if is_buy (order nd) then bids b else asks b) = Some q \<and>
                n \<in> set (orders q))) \<and>
         (\<forall>n \<in> set (book_nodes b).
            \<exists>nd. nodes b n = Some nd \<and> fmlookup (order_lookup b) (order_id (order nd)) = Some n) \<and>
         (\<forall>e \<in> set (bids b) \<union> set (asks b).
            total_quantity (snd e) = queue_sum (nodes b) (orders (snd e))) \<and>
         (\<forall>e \<in> set (bids b) \<union> set (asks b).
            unat (total_quantity (snd e)) = queue_sum_nat (nodes b) (orders (snd e)) mod 2 ^ 64) \<and>
         (\<forall>e \<in> set (bids b) \<union> set (asks b).
            queue_sum_nat (nodes b) (orders (snd e)) < 2 ^ 64 \<longrightarrow>
            unat (total_quantity (snd e)) = queue_sum_nat (nodes b) (orders (snd e))) \<and>
         (\<forall>e \<in> set (bids b) \<union> set (asks b). orders (snd e) \<noteq> []) \<and>
         get_order_count b = (\<Sum>e\<leftarrow>bids b @ asks b. length (orders (snd e)))"
proof -
  have inv: "book_inv b" using assms by (rule reachable_inv)
  then have qok: "queues_ok b" and iok: "index_ok b" and hok: "heap_ok b"
    and srt: "sorted_sides b" and dist: "distinct (book_nodes b)"
    and cnt: "get_order_count b = length (book_nodes b)"
    by (simp_all add: book_inv_def)
  have p1: "\<exists>nd q. nodes b n = Some nd \<and> order_id (order nd) = oid \<and>
                count_list (book_nodes b) n = 1 \<and>
                side_find (price (order nd)) (if is_buy (order nd) then bids b else asks b) = Some q \<and>
                n \<in> set (orders q)"
    if l: "fmlookup (order_lookup b) oid = Some n" for oid n
  proof -
    from index_okD [OF iok l] obtain nd where nd: "nodes b n = Some nd"
      "order_id (order nd) = oid" "n \<in> set (queue_at b (is_buy (order nd)) (price (order nd)))"
      by blast
    from nd(3) obtain q where q: "side_find (price (order nd)) (side_of (is_buy (order nd)) b) = Some q"
      "n \<in> set (orders q)"
      by (cases "side_find (price (order nd)) (side_of (is_buy (order nd)) b)")
         (auto simp: queue_at_def)
    have "n \<in> set (book_nodes b)"
      using nd(3) in_book_nodes_iff [OF srt] by blast
    then have "count_list (book_nodes b) n = 1"
      using dist by (simp add: count_list_distinct)
    with nd(1,2) q show ?thesis
      unfolding side_of_def by blast
  qed
  have p2: "\<exists>nd. nodes b n = Some nd \<and> fmlookup (order_lookup b) (order_id (order nd)) = Some n"
    if "n \<in> set (book_nodes b)" for n
  proof -
    from that obtain buy p where "n \<in> set (queue_at b buy p)"
      using in_book_nodes_iff [OF srt] by blast
    from queue_node_live [OF qok this] obtain nd where "nodes b n = Some nd" by blast
    with heap_okD [OF hok this] show ?thesis by blast
  qed
  have p3: "unat (total_quantity (snd e)) = queue_sum_nat (nodes b) (orders (snd e)) mod 2 ^ 64"
    if "e \<in> set (bids b) \<union> set (asks b)" for e
    using entry_ok(1) [OF inv that] by (simp add: queue_sum_mod)
  have p4: "unat (total_quantity (snd e)) = queue_sum_nat (nodes b) (orders (snd e))"
    if "e \<in> set (bids b) \<union> set (asks b)" "queue_sum_nat (nodes b) (orders (snd e)) < 2 ^ 64" for e
    using p3 [OF that(1)] that(2) by simp
  show ?thesis
    using p1 p2 p3 p4 entry_ok [OF inv] cnt by (simp add: length_book_nodes)
qed

theorem cross_index_invariant_witness:
  "reachable book3 \<and> get_order_count book3 = 3 \<and>
   count_list (book_nodes book3) (0, 1) = 1 \<and>
   queue_sum (nodes book3) [(0, 0), (0, 1)] = 30 \<and>
   queue_sum_nat (nodes book3) [(0, 0), (0, 1)] = 30 \<and>
   queue_sum (nodes book3) [(0, 2)] = 25"
proof -
  have l: "fmlookup (order_lookup book3) 2 = Some (0, 1)"
    by (simp add: book3_def)
  have s: "(\<Sum>e\<leftarrow>bids book3 @ asks book3. length (orders (snd e))) = 3"
    by (simp add: book3_def)
  have e1: "(100, \<lparr>orders = [(0, 0), (0, 1)], total_quantity = 30\<rparr>)
      \<in> set (bids book3) \<union> set (asks book3)"
    and e2: "(101, \<lparr>orders = [(0, 2)], total_quantity = 25\<rparr>)
      \<in> set (bids book3) \<union> set (asks book3)"
    by (simp_all add: book3_def)
  have n: "queue_sum_nat (nodes book3) [(0, 0), (0, 1)] = 30"
    by (simp add: queue_sum_nat_def node_quantity_def book3_def order1_def order2_def Order_new_def)
  note c = cross_index_invariant [OF book3_reachable]
  from c have c1: "\<forall>oid n. fmlookup (order_lookup book3) oid = Some n \<longrightarrow>
            (\<exists>nd q. nodes book3 n = Some nd \<and> order_id (order nd) = oid \<and>
                count_list (book_nodes book3) n = 1 \<and>
                side_find (price (order nd)) (if is_buy (order nd) then bids book3 else asks book3) = Some q \<and>
                n \<in> set (orders q))"
    and c3: "\<forall>e \<in> set (bids book3) \<union> set (asks book3).
            total_quantity (snd e) = queue_sum (nodes book3) (orders (snd e))"
    and c4: "\<forall>e \<in> set (bids book3) \<union> set (asks book3).
            queue_sum_nat (nodes book3) (orders (snd e)) < 2 ^ 64 \<longrightarrow>
            unat (total_quantity (snd e)) = queue_sum_nat (nodes book3) (orders (snd e))"
    and c5: "get_order_count book3 = (\<Sum>e\<leftarrow>bids book3 @ asks book3. length (orders (snd e)))"
    by blast+
  from c1 l have "count_list (book_nodes book3) (0, 1) = 1" by blast
  moreover from bspec [OF c3 e1] have "queue_sum (nodes book3) [(0, 0), (0, 1)] = 30" by simp
  moreover from bspec [OF c3 e2] have "queue_sum (nodes book3) [(0, 2)] = 25" by simp
  moreover from c5 s have "get_order_count book3 = 3" by simp
  moreover from bspec [OF c4 e1] n have "unat (30 :: u64) = 30" by simp
  ultimately show ?thesis using book3_reachable n by simp
qed

lemma book3_views:
  "queue_at book3 True 100 = [(0, 0), (0, 1)]" "total_at book3 True 100 = 30"
  "queue_at book3 True 99 = []" "total_at book3 True 99 = 0"
  "queue_at book3 False 101 = [(0, 2)]" "total_at book3 False 101 = 25"
  "fmlookup (order_lookup book3) 1 = Some (0, 0)"
  "nodes book3 (0, 0) = Some \<lparr>order = order1\<rparr>"
  by (simp_all add: book3_def queue_at_def total_at_def side_of_def side_find_def)

lemma order1_fields:
  "order_id order1 = 1" "is_buy order1 = True" "price order1 = 100" "quantity order1 = 10"
  by (simp_all add: order1_def Order_new_def)

text \<open>
  C2. Quantity-only amend preserves time priority: for a live order (an id of the order
  index of a reachable book, with its node), \<^verbatim>\<open>amend_order\<close> at the order's own price
  with a different quantity \<open>q\<close> returns true, writes \<open>q\<close> into the node and nothing else,
  adds \<open>q - old\<close> to the cached total of the order's level, and leaves every FIFO of the
  book, the order's own included, exactly as it was.
\<close>

theorem amend_quantity_keeps_priority:
  assumes "reachable b" and "fmlookup (order_lookup b) oid = Some node"
    and "nodes b node = Some nd" and "quantity (order nd) \<noteq> q"
  shows "\<exists>b'. amend_order oid (price (order nd)) q b = Some (True, b') \<and>
     nodes b' node = Some \<lparr>order = (order nd)\<lparr>quantity := q\<rparr>\<rparr> \<and>
     (\<forall>n. n \<noteq> node \<longrightarrow> nodes b' n = nodes b n) \<and>
     order_lookup b' = order_lookup b \<and>
     total_at b' (is_buy (order nd)) (price (order nd))
       = total_at b (is_buy (order nd)) (price (order nd)) + (q - quantity (order nd)) \<and>
     (\<forall>buy p. queue_at b' buy p = queue_at b buy p) \<and>
     node \<in> set (queue_at b' (is_buy (order nd)) (price (order nd)))"
proof -
  have inv: "book_inv b" using assms(1) by (rule reachable_inv)
  then have iok: "index_ok b" by (simp add: book_inv_def)
  have mem: "node \<in> set (queue_at b (is_buy (order nd)) (price (order nd)))"
    using index_okD [OF iok assms(2)] assms(3) by auto
  from amend_qty_effect [OF inv assms(2,3) refl, of q] obtain b' where
    eq: "amend_order oid (price (order nd)) q b = Some (True, b')" and
    h: "nodes b' = (nodes b)(node \<mapsto> \<lparr>order = (order nd)\<lparr>quantity := q\<rparr>\<rparr>)" and
    l: "order_lookup b' = order_lookup b" and
    qq: "\<And>buy p. queue_at b' buy p = queue_at b buy p" and
    t: "\<And>buy p. total_at b' buy p =
        (if buy = is_buy (order nd) \<and> p = price (order nd)
         then total_at b buy p - quantity (order nd) + q else total_at b buy p)"
    by blast
  have "total_at b' (is_buy (order nd)) (price (order nd))
       = total_at b (is_buy (order nd)) (price (order nd)) + (q - quantity (order nd))"
    by (simp add: t)
  with eq l qq mem show ?thesis
    by (intro exI [of _ b']) (simp add: h)
qed

theorem amend_quantity_keeps_priority_witness:
  "reachable book3 \<and> fmlookup (order_lookup book3) 1 = Some (0, 0) \<and>
   nodes book3 (0, 0) = Some \<lparr>order = order1\<rparr> \<and> quantity order1 \<noteq> 50 \<and>
   (\<exists>b'. amend_order 1 100 50 book3 = Some (True, b') \<and>
         queue_at b' True 100 = [(0, 0), (0, 1)] \<and> total_at b' True 100 = 70 \<and>
         nodes b' (0, 0) = Some \<lparr>order = Order_new 1 True 100 50 0\<rparr>)"
proof -
  have q: "quantity (order \<lparr>order = order1\<rparr>) \<noteq> 50"
    by (simp add: order1_fields)
  show ?thesis
    using amend_quantity_keeps_priority [OF book3_reachable book3_views(7,8) q]
      book3_reachable
    by (auto simp: book3_views order1_fields) (simp add: order1_def Order_new_def)
qed

text \<open>
  C9. Amending to zero quantity is not a cancel: for a live order, \<^verbatim>\<open>amend_order\<close> at
  the order's own price with quantity 0 returns true and leaves the order in the order
  index and at its place in its FIFO (\<^verbatim>\<open>get_order_count\<close> is unchanged), the node now
  holding quantity 0 and the cached total of the level lowered by the old quantity;
  \<^verbatim>\<open>cancel_order\<close> on the same book removes the id from the index and the node from the
  FIFO.
\<close>

theorem amend_to_zero_is_not_cancel:
  assumes "reachable b" and "fmlookup (order_lookup b) oid = Some node"
    and "nodes b node = Some nd"
  shows "(\<exists>b'. amend_order oid (price (order nd)) 0 b = Some (True, b') \<and>
       fmlookup (order_lookup b') oid = Some node \<and>
       nodes b' node = Some \<lparr>order = (order nd)\<lparr>quantity := 0\<rparr>\<rparr> \<and>
       node \<in> set (queue_at b' (is_buy (order nd)) (price (order nd))) \<and>
       (\<forall>buy p. queue_at b' buy p = queue_at b buy p) \<and>
       get_order_count b' = get_order_count b \<and>
       total_at b' (is_buy (order nd)) (price (order nd))
         = total_at b (is_buy (order nd)) (price (order nd)) - quantity (order nd)) \<and>
     (\<exists>bc. cancel_order oid b = Some (True, bc) \<and>
       fmlookup (order_lookup bc) oid = None \<and>
       node \<notin> set (queue_at bc (is_buy (order nd)) (price (order nd))) \<and>
       Suc (get_order_count bc) = get_order_count b)"
proof -
  have inv: "book_inv b" using assms(1) by (rule reachable_inv)
  then have iok: "index_ok b" and qok: "queues_ok b" by (simp_all add: book_inv_def)
  have mem: "node \<in> set (queue_at b (is_buy (order nd)) (price (order nd)))"
    using index_okD [OF iok assms(2)] assms(3) by auto
  from amend_qty_effect [OF inv assms(2,3) refl, of 0] obtain b' where
    eq: "amend_order oid (price (order nd)) 0 b = Some (True, b')" and
    h: "nodes b' = (nodes b)(node \<mapsto> \<lparr>order = (order nd)\<lparr>quantity := 0\<rparr>\<rparr>)" and
    l: "order_lookup b' = order_lookup b" and
    qq: "\<And>buy p. queue_at b' buy p = queue_at b buy p" and
    t: "\<And>buy p. total_at b' buy p =
        (if buy = is_buy (order nd) \<and> p = price (order nd)
         then total_at b buy p - quantity (order nd) + 0 else total_at b buy p)"
    by blast
  have first: "\<exists>b'. amend_order oid (price (order nd)) 0 b = Some (True, b') \<and>
       fmlookup (order_lookup b') oid = Some node \<and>
       nodes b' node = Some \<lparr>order = (order nd)\<lparr>quantity := 0\<rparr>\<rparr> \<and>
       node \<in> set (queue_at b' (is_buy (order nd)) (price (order nd))) \<and>
       (\<forall>buy p. queue_at b' buy p = queue_at b buy p) \<and>
       get_order_count b' = get_order_count b \<and>
       total_at b' (is_buy (order nd)) (price (order nd))
         = total_at b (is_buy (order nd)) (price (order nd)) - quantity (order nd)"
    using eq assms(2) mem
    by (intro exI [of _ b']) (simp add: h l qq t get_order_count_def)
  from cancel_order_effect [OF inv assms(2)] assms(3) obtain bc where
    c: "cancel_order oid b = Some (True, bc)" and
    lc: "order_lookup bc = fmdrop oid (order_lookup b)" and
    qc: "\<And>buy p. queue_at bc buy p =
        (if buy = is_buy (order nd) \<and> p = price (order nd) then remove1 node (queue_at b buy p)
         else queue_at b buy p)"
    by auto
  have "node \<notin> set (queue_at bc (is_buy (order nd)) (price (order nd)))"
    using queues_okD(1) [OF qok, of "is_buy (order nd)" "price (order nd)"] by (simp add: qc)
  moreover have "oid |\<in>| fmdom (order_lookup b)"
    using assms(2) by (rule fmdomI)
  then have "Suc (fcard (fmdom (order_lookup b) |-| {|oid|})) = fcard (fmdom (order_lookup b))"
    by (rule fcard_Suc_fminus1)
  then have "Suc (get_order_count bc) = get_order_count b"
    by (simp only: get_order_count_def lc fmdom_drop)
  ultimately have second: "\<exists>bc. cancel_order oid b = Some (True, bc) \<and>
       fmlookup (order_lookup bc) oid = None \<and>
       node \<notin> set (queue_at bc (is_buy (order nd)) (price (order nd))) \<and>
       Suc (get_order_count bc) = get_order_count b"
    using c by (intro exI [of _ bc]) (simp add: lc)
  from first second show ?thesis by (rule conjI)
qed

theorem amend_to_zero_is_not_cancel_witness:
  "reachable book3 \<and> fmlookup (order_lookup book3) 1 = Some (0, 0) \<and>
   nodes book3 (0, 0) = Some \<lparr>order = order1\<rparr> \<and>
   (\<exists>b'. amend_order 1 100 0 book3 = Some (True, b') \<and>
         fmlookup (order_lookup b') 1 = Some (0, 0) \<and>
         queue_at b' True 100 = [(0, 0), (0, 1)] \<and> total_at b' True 100 = 20 \<and>
         get_order_count b' = get_order_count book3)"
  using amend_to_zero_is_not_cancel [OF book3_reachable book3_views(7,8)] book3_reachable
  by (auto simp: book3_views order1_fields)

text \<open>
  C3. Price amend forfeits time priority: for a live order, \<^verbatim>\<open>amend_order\<close> with a price
  different from the order's price returns true; the node leaves the FIFO of its old
  level, and the old level is gone from the side exactly when that FIFO is then empty; the
  node holds the new price and the new quantity; it is appended to the FIFO at the new
  price on the same side, where it is the last node; the order index is unchanged, so the
  id still maps to the same node.
\<close>

theorem amend_price_forfeits_priority:
  assumes "reachable b" and "fmlookup (order_lookup b) oid = Some node"
    and "nodes b node = Some nd" and "price (order nd) \<noteq> np"
  shows "\<exists>b'. amend_order oid np q b = Some (True, b') \<and>
     nodes b' node = Some \<lparr>order = (order nd)\<lparr>price := np, quantity := q\<rparr>\<rparr> \<and>
     order_lookup b' = order_lookup b \<and> fmlookup (order_lookup b') oid = Some node \<and>
     queue_at b' (is_buy (order nd)) (price (order nd))
       = remove1 node (queue_at b (is_buy (order nd)) (price (order nd))) \<and>
     node \<notin> set (queue_at b' (is_buy (order nd)) (price (order nd))) \<and>
     (side_find (price (order nd)) (if is_buy (order nd) then bids b' else asks b') = None
        \<longleftrightarrow> remove1 node (queue_at b (is_buy (order nd)) (price (order nd))) = []) \<and>
     queue_at b' (is_buy (order nd)) np = queue_at b (is_buy (order nd)) np @ [node] \<and>
     last (queue_at b' (is_buy (order nd)) np) = node \<and>
     (\<forall>p. queue_at b' (\<not> is_buy (order nd)) p = queue_at b (\<not> is_buy (order nd)) p) \<and>
     total_at b' (is_buy (order nd)) np = total_at b (is_buy (order nd)) np + q"
proof -
  have inv: "book_inv b" using assms(1) by (rule reachable_inv)
  then have qok: "queues_ok b" by (simp add: book_inv_def)
  from amend_price_effect [OF inv assms(2,3,4), of q] obtain b' where
    eq: "amend_order oid np q b = Some (True, b')" and
    h: "nodes b' = (nodes b)(node \<mapsto> \<lparr>order = (order nd)\<lparr>price := np, quantity := q\<rparr>\<rparr>)" and
    l: "order_lookup b' = order_lookup b" and
    qq: "\<And>buy p. queue_at b' buy p =
        (if buy = is_buy (order nd) \<and> p = np then queue_at b buy p @ [node]
         else if buy = is_buy (order nd) \<and> p = price (order nd)
              then remove1 node (queue_at b buy p)
         else queue_at b buy p)" and
    t: "\<And>buy p. total_at b' buy p =
        (if buy = is_buy (order nd) \<and> p = np then total_at b buy p + q
         else if buy = is_buy (order nd) \<and> p = price (order nd)
              then total_at b buy p - quantity (order nd)
         else total_at b buy p)" and
    inv': "book_inv b'"
    by blast
  from inv' have ne': "levels_nonempty b'" by (simp add: book_inv_def)
  have old: "queue_at b' (is_buy (order nd)) (price (order nd))
       = remove1 node (queue_at b (is_buy (order nd)) (price (order nd)))"
    using assms(4) by (simp add: qq)
  have gone: "node \<notin> set (queue_at b' (is_buy (order nd)) (price (order nd)))"
    using queues_okD(1) [OF qok, of "is_buy (order nd)" "price (order nd)"] by (simp add: old)
  have erased: "side_find (price (order nd)) (if is_buy (order nd) then bids b' else asks b') = None
        \<longleftrightarrow> remove1 node (queue_at b (is_buy (order nd)) (price (order nd))) = []"
  proof (cases "side_find (price (order nd)) (side_of (is_buy (order nd)) b')")
    case None
    then have "queue_at b' (is_buy (order nd)) (price (order nd)) = []"
      by (simp add: queue_at_def)
    with None show ?thesis by (simp add: old [symmetric] side_of_def)
  next
    case (Some lvl)
    then have "queue_at b' (is_buy (order nd)) (price (order nd)) \<noteq> []"
      using ne' by (auto simp: queue_at_def levels_nonempty_def)
    with Some show ?thesis by (simp add: old [symmetric] side_of_def)
  qed
  have new: "queue_at b' (is_buy (order nd)) np = queue_at b (is_buy (order nd)) np @ [node]"
    by (simp add: qq)
  have other: "queue_at b' (\<not> is_buy (order nd)) p = queue_at b (\<not> is_buy (order nd)) p" for p
    by (simp add: qq)
  have tot: "total_at b' (is_buy (order nd)) np = total_at b (is_buy (order nd)) np + q"
    by (simp add: t)
  show ?thesis
    using eq assms(2) old gone erased new other tot
    by (intro exI [of _ b']) (simp add: h l)
qed

theorem amend_price_forfeits_priority_witness:
  "reachable book3 \<and> fmlookup (order_lookup book3) 1 = Some (0, 0) \<and>
   nodes book3 (0, 0) = Some \<lparr>order = order1\<rparr> \<and> price order1 \<noteq> 99 \<and>
   (\<exists>b'. amend_order 1 99 50 book3 = Some (True, b') \<and>
         fmlookup (order_lookup b') 1 = Some (0, 0) \<and>
         queue_at b' True 100 = [(0, 1)] \<and> queue_at b' True 99 = [(0, 0)] \<and>
         total_at b' True 99 = 50)"
proof -
  have p: "price (order \<lparr>order = order1\<rparr>) \<noteq> 99"
    by (simp add: order1_fields)
  show ?thesis
    using amend_price_forfeits_priority [OF book3_reachable book3_views(7,8) p, of 50]
      book3_reachable
    by (auto simp: book3_views order1_fields)
qed

text \<open>
  C10. \<^verbatim>\<open>add_order\<close> performs no input validation: in a reachable book, every order whose
  id is not in the order index is inserted as a live order, whatever its quantity and id
  (zero included): the id is indexed to the new node holding the order, the node is the
  last of the FIFO at the order's price on its side, \<^verbatim>\<open>get_order_count\<close> grows by one and
  the order's quantity is added to the cached total of that level.
\<close>

theorem add_order_no_validation:
  assumes "reachable b" and "order_id ord |\<notin>| fmdom (order_lookup b)"
  shows "\<exists>b' node. add_order ord b = Some b' \<and>
     fmlookup (order_lookup b') (order_id ord) = Some node \<and>
     nodes b' node = Some \<lparr>order = ord\<rparr> \<and>
     queue_at b' (is_buy ord) (price ord) = queue_at b (is_buy ord) (price ord) @ [node] \<and>
     get_order_count b' = get_order_count b + 1 \<and>
     total_at b' (is_buy ord) (price ord) = total_at b (is_buy ord) (price ord) + quantity ord"
proof -
  have inv: "book_inv b" using assms(1) by (rule reachable_inv)
  have fresh: "fmlookup (order_lookup b) (order_id ord) = None"
    using assms(2) by (simp add: fmdom_notD)
  from add_order_effect [OF inv fresh] obtain b' node where
    eq: "add_order ord b = Some b'" and
    h: "nodes b' = (nodes b)(node \<mapsto> \<lparr>order = ord\<rparr>)" and
    l: "order_lookup b' = fmupd (order_id ord) node (order_lookup b)" and
    qq: "\<And>buy p. queue_at b' buy p =
        (if buy = is_buy ord \<and> p = price ord then queue_at b buy p @ [node]
         else queue_at b buy p)" and
    t: "\<And>buy p. total_at b' buy p =
        (if buy = is_buy ord \<and> p = price ord then total_at b buy p + quantity ord
         else total_at b buy p)"
    by blast
  have "get_order_count b' = get_order_count b + 1"
    using assms(2) by (simp add: get_order_count_def l fcard_finsert_disjoint)
  with eq show ?thesis
    by (intro exI [of _ b'] exI [of _ node]) (simp add: h l qq t)
qed

theorem add_order_no_validation_witness:
  "reachable book3 \<and> order_id (Order_new 0 True 100 0 0) |\<notin>| fmdom (order_lookup book3) \<and>
   (\<exists>b' node. add_order (Order_new 0 True 100 0 0) book3 = Some b' \<and>
      fmlookup (order_lookup b') 0 = Some node \<and>
      nodes b' node = Some \<lparr>order = Order_new 0 True 100 0 0\<rparr> \<and>
      queue_at b' True 100 = [(0, 0), (0, 1), node] \<and>
      get_order_count b' = get_order_count book3 + 1 \<and>
      total_at b' True 100 = 30)"
proof -
  have f: "order_id (Order_new 0 True 100 0 0) |\<notin>| fmdom (order_lookup book3)"
    by (simp add: Order_new_def book3_def)
  have o: "order_id (Order_new 0 True 100 0 0) = 0" "is_buy (Order_new 0 True 100 0 0) = True"
    "price (Order_new 0 True 100 0 0) = 100" "quantity (Order_new 0 True 100 0 0) = 0"
    by (simp_all add: Order_new_def)
  show ?thesis
    using add_order_no_validation [OF book3_reachable f] book3_reachable f
    by (auto simp: book3_views o)
qed

lemma remove1_snoc_fresh: "x \<notin> set xs \<Longrightarrow> remove1 x (xs @ [x]) = xs"
  by (simp add: remove1_append)

text \<open>
  C4. Round-trip of \<^verbatim>\<open>add_order\<close> and \<^verbatim>\<open>cancel_order\<close>. As stated, for every order, the
  claim fails: when the id of the order is already live, \<^verbatim>\<open>add_order\<close> drops the
  duplicate and \<^verbatim>\<open>cancel_order\<close> then removes the order that was there before. In the
  book holding only order 1, adding order 1 again and cancelling id 1 leaves no bid.
\<close>

theorem roundtrip_counterexample:
  "reachable book1 \<and>
   bids book1 = [(100, \<lparr>orders = [(0, 0)], total_quantity = 10\<rparr>)] \<and>
   map_option bids (add_then_cancel order1 book1) = Some [] \<and>
   map_option get_order_count (add_then_cancel order1 book1) = Some 0 \<and>
   get_order_count book1 = 1"
proof -
  have r: "reachable book1"
    using reachable_new book1_run by (rule reachable_add)
  have a: "add_order order1 book1 = Some book1"
    by (simp add: add_order_def book1_def order1_fields)
  have c: "cancel_order 1 book1 =
      Some (True, \<lparr>bids = [], asks = [], order_lookup = fmdrop 1 (fmupd 1 (0, 0) fmempty),
                   order_pool = \<lparr>blocks = [0], current_block = 0, current_slot = 1\<rparr>,
                   nodes = [(0, 0) \<mapsto> \<lparr>order = order1\<rparr>]((0, 0) := None)\<rparr>)"
    by (simp add: cancel_order_def remove_from_side_def level_remove_order_def
        level_is_empty_def destroy_def side_find_def book1_def order1_fields)
  show ?thesis
    using r by (simp add: add_then_cancel_def a c order1_fields get_order_count_def)
      (simp add: book1_def fcard_finsert_if)
qed

text \<open>
  C4, amended. For every reachable book and every order whose id is not in the order
  index, \<^verbatim>\<open>add_order\<close> followed by \<^verbatim>\<open>cancel_order\<close> of that id returns, and leaves the
  order index, both sides and the live nodes equal to what they were before the add; only
  the pool has moved on.
\<close>

theorem add_then_cancel_roundtrip:
  assumes "reachable b" and "order_id ord |\<notin>| fmdom (order_lookup b)"
  shows "\<exists>b'. add_then_cancel ord b = Some b' \<and>
     order_lookup b' = order_lookup b \<and> bids b' = bids b \<and> asks b' = asks b \<and>
     nodes b' = nodes b"
proof -
  have inv: "book_inv b" using assms(1) by (rule reachable_inv)
  then have qok: "queues_ok b" and srt: "sorted_sides b" and ne: "levels_nonempty b"
    by (simp_all add: book_inv_def)
  have fresh: "fmlookup (order_lookup b) (order_id ord) = None"
    using assms(2) by (simp add: fmdom_notD)
  from add_order_effect [OF inv fresh] obtain b1 node where
    a: "add_order ord b = Some b1" and dead: "nodes b node = None" and
    h1: "nodes b1 = (nodes b)(node \<mapsto> \<lparr>order = ord\<rparr>)" and
    l1: "order_lookup b1 = fmupd (order_id ord) node (order_lookup b)" and
    q1: "\<And>buy p. queue_at b1 buy p =
        (if buy = is_buy ord \<and> p = price ord then queue_at b buy p @ [node]
         else queue_at b buy p)" and
    t1: "\<And>buy p. total_at b1 buy p =
        (if buy = is_buy ord \<and> p = price ord then total_at b buy p + quantity ord
         else total_at b buy p)" and
    inv1: "book_inv b1"
    by blast
  have lk1: "fmlookup (order_lookup b1) (order_id ord) = Some node"
    by (simp add: l1)
  have n1: "nodes b1 node = Some \<lparr>order = ord\<rparr>"
    by (simp add: h1)
  from cancel_order_effect [OF inv1 lk1] n1 obtain b2 where
    c: "cancel_order (order_id ord) b1 = Some (True, b2)" and
    h2: "nodes b2 = (nodes b1)(node := None)" and
    l2: "order_lookup b2 = fmdrop (order_id ord) (order_lookup b1)" and
    q2: "\<And>buy p. queue_at b2 buy p =
        (if buy = is_buy ord \<and> p = price ord then remove1 node (queue_at b1 buy p)
         else queue_at b1 buy p)" and
    t2: "\<And>buy p. total_at b2 buy p =
        (if buy = is_buy ord \<and> p = price ord then total_at b1 buy p - quantity ord
         else total_at b1 buy p)" and
    inv2: "book_inv b2"
    by auto
  from inv2 have srt2: "sorted_sides b2" and ne2: "levels_nonempty b2"
    by (simp_all add: book_inv_def)
  have eq: "add_then_cancel ord b = Some b2"
    by (simp add: add_then_cancel_def a c)
  have nq: "node \<notin> set (queue_at b buy p)" for buy p
    using qok dead by (rule dead_not_queued)
  have qq: "queue_at b2 buy p = queue_at b buy p" for buy p
  proof (cases "buy = is_buy ord \<and> p = price ord")
    case True
    then show ?thesis
      using remove1_snoc_fresh [OF nq [of "is_buy ord" "price ord"]] by (simp add: q2 q1)
  next
    case False
    then show ?thesis
      using q2 [of buy p] q1 [of buy p] by auto
  qed
  have tt: "total_at b2 buy p = total_at b buy p" for buy p
    using t2 [of buy p] t1 [of buy p] by auto
  have sides: "bids b2 = bids b" "asks b2 = asks b"
    using srt srt2 ne ne2 qq tt by (rule book_ext)+
  have l: "order_lookup b2 = order_lookup b"
    using assms(2) by (simp add: l2 l1 fmdrop_fmupd_same fmdrop_idle)
  have h: "nodes b2 = nodes b"
    using dead by (simp add: h2 h1 fun_upd_idem)
  show ?thesis
    using eq l sides h by blast
qed

theorem add_then_cancel_roundtrip_witness:
  "reachable book3 \<and> order_id (Order_new 4 False 101 5 0) |\<notin>| fmdom (order_lookup book3) \<and>
   (\<exists>b'. add_then_cancel (Order_new 4 False 101 5 0) book3 = Some b' \<and>
      order_lookup b' = order_lookup book3 \<and> bids b' = bids book3 \<and> asks b' = asks book3 \<and>
      nodes b' = nodes book3)"
proof -
  have f: "order_id (Order_new 4 False 101 5 0) |\<notin>| fmdom (order_lookup book3)"
    by (simp add: Order_new_def book3_def)
  show ?thesis
    using add_then_cancel_roundtrip [OF book3_reachable f] book3_reachable f by simp
qed

end
